theory Spec2Isabelle
  imports
    Complex_Main
    "HOL-Library.AList"
    "HOL-Library.Char_ord"
    "HOL-Library.List_Lexorder"
    "HOL-Library.Product_Lexorder"
begin

section \<open>FinForge detection engine: a shallow embedding of \<open>backend/detector.py\<close>\<close>

text \<open>
  Conventions of the embedding.
  \<^item> Python floats are idealised as exact rationals (\<open>rat\<close>); counts are \<open>nat\<close>.
  \<^item> A timestamp is an \<open>int\<close>, the number of seconds since the epoch; a cell that
    \<open>pd.to_datetime(..., errors="coerce")\<close> turns into NaT is \<open>None\<close>, and likewise
    an amount cell that \<open>pd.to_numeric(..., errors="coerce")\<close> turns into NaN.
  \<^item> A Python \<open>dict\<close> is an association list in insertion order
    (\<open>AList.update\<close> overwrites in place or appends, as a dict does);
    a Python \<open>set\<close> of strings is a duplicate-free list, and every \<open>for x in s\<close> over
    such a set visits it in the order \<open>set_iter hsh s\<close>, where the parameter \<open>hsh\<close>
    stands for the string hash of the running interpreter.
  \<^item> An exception or a loop that does not terminate is the value \<open>None\<close> of an
    \<open>option\<close> result; \<open>parse_csv\<close>, whose source raises explicitly, returns a sum.
  \<^item> \<open>analysis_id\<close>, \<open>timestamp\<close> and \<open>processing_time_seconds\<close> of the result
    come from the clock and the random generator and are left out of the result record.
\<close>

subsection \<open>Constants\<close>

definition FRAUD_PREFIXES :: "string list" where
  "FRAUD_PREFIXES =
     [''NODE_'', ''NX_'', ''CYC3_'', ''CYC4_'', ''CYC5_'',
      ''SMURF_'', ''SF_'', ''SHELL_'', ''VEL_'', ''R5_'',
      ''SH_INT'', ''SH_SRC'', ''SH_DST'', ''SRC_'']"

definition MIN_CYCLE_LENGTH :: nat where "MIN_CYCLE_LENGTH = 3"
definition MAX_CYCLE_LENGTH :: nat where "MAX_CYCLE_LENGTH = 5"
definition MIN_FAN_COUNT :: nat where "MIN_FAN_COUNT = 10"
definition MERCHANT_THRESHOLD :: nat where "MERCHANT_THRESHOLD = 100"
definition SHELL_MAX_TX_COUNT :: nat where "SHELL_MAX_TX_COUNT = 4"
definition MIN_CYCLE_AMOUNT :: rat where "MIN_CYCLE_AMOUNT = 5000"
definition FAN_OUT_THRESHOLD :: nat where "FAN_OUT_THRESHOLD = 10"
definition VELOCITY_WINDOW_HOURS :: int where "VELOCITY_WINDOW_HOURS = 72"
definition VELOCITY_TX_THRESHOLD :: nat where "VELOCITY_TX_THRESHOLD = 10"
definition MAX_SCC_SIZE :: nat where "MAX_SCC_SIZE = 40"
definition MAX_CYCLE_SEARCH_NODES :: nat where "MAX_CYCLE_SEARCH_NODES = 200"

text \<open>\<open>timedelta(hours=VELOCITY_WINDOW_HOURS).total_seconds()\<close>\<close>

definition window_seconds :: int where
  "window_seconds = VELOCITY_WINDOW_HOURS * 3600"

subsection \<open>Python built-ins used by the source\<close>

definition startswith :: "string \<Rightarrow> string \<Rightarrow> bool" where
  "startswith s p \<longleftrightarrow> take (length p) s = p"

definition is_fraud :: "string \<Rightarrow> bool" where
  "is_fraud s \<longleftrightarrow> list_ex (startswith s) FRAUD_PREFIXES"

definition all_legit :: "string list \<Rightarrow> bool" where
  "all_legit ns \<longleftrightarrow> list_all (\<lambda>n. startswith n ''LEGIT_'') ns"

text \<open>First occurrences in order: the keys of a dict filled in this order.\<close>

definition insert_new :: "'a \<Rightarrow> 'a list \<Rightarrow> 'a list" where
  "insert_new x acc = (if x \<in> set acc then acc else acc @ [x])"

definition uniq :: "'a list \<Rightarrow> 'a list" where
  "uniq xs = fold insert_new xs []"

definition nunique :: "'a list \<Rightarrow> nat" where
  "nunique xs = length (remdups xs)"

text \<open>
  The order in which the interpreter visits a set of strings: by hash, the parameter
  \<open>hsh\<close>. The result is always a permutation of the set.
\<close>

definition set_iter :: "(string \<Rightarrow> nat) \<Rightarrow> string list \<Rightarrow> string list" where
  "set_iter hsh s = sort_key hsh (sort (remdups s))"

text \<open>\<open>sorted(xs, key=k, reverse=True)\<close> is stable: equal keys keep their order.\<close>

definition sorted_desc :: "('a \<Rightarrow> rat) \<Rightarrow> 'a list \<Rightarrow> 'a list" where
  "sorted_desc k xs = sort_key (\<lambda>x. - k x) xs"

text \<open>\<open>round(x, n)\<close>: to the nearest multiple of \<open>10^-n\<close>, a tie to the even one.\<close>

definition round_half_even :: "rat \<Rightarrow> int" where
  "round_half_even x =
     (let f = \<lfloor>x\<rfloor>; d = x - of_int f
      in if d < 1 / 2 then f else if 1 / 2 < d then f + 1
         else if even f then f else f + 1)"

definition py_round :: "rat \<Rightarrow> nat \<Rightarrow> rat" where
  "py_round x n = of_int (round_half_even (x * 10 ^ n)) / 10 ^ n"

text \<open>The decimal digits of a number, and the format \<open>f"RING_{idx:03d}"\<close>.\<close>

fun dec :: "nat \<Rightarrow> string" where
  "dec n = (if n < 10 then [char_of (48 + n)]
            else dec (n div 10) @ [char_of (48 + n mod 10)])"

declare dec.simps [simp del]

definition zfill :: "nat \<Rightarrow> string \<Rightarrow> string" where
  "zfill w s = replicate (w - length s) (CHR ''0'') @ s"

definition ring_label :: "nat \<Rightarrow> string" where
  "ring_label idx = ''RING_'' @ zfill 3 (dec idx)"

text \<open>\<open>str.strip\<close> and \<open>str.lower\<close> on ASCII, for the column names.\<close>

definition is_space :: "char \<Rightarrow> bool" where
  "is_space c \<longleftrightarrow> c \<in> set [CHR '' '', CHR 0x09, CHR 0x0A, CHR 0x0B, CHR 0x0C, CHR 0x0D]"

definition strip :: "string \<Rightarrow> string" where
  "strip s = rev (dropWhile is_space (rev (dropWhile is_space s)))"

definition lower_char :: "char \<Rightarrow> char" where
  "lower_char c =
     (let k = (of_char c :: nat) in if 65 \<le> k \<and> k \<le> 90 then char_of (k + 32) else c)"

definition lower :: "string \<Rightarrow> string" where
  "lower s = map lower_char s"

fun join :: "string \<Rightarrow> string list \<Rightarrow> string" where
  "join sep [] = []"
| "join sep [x] = x"
| "join sep (x # y # ys) = x @ sep @ join sep (y # ys)"

subsection \<open>Data model\<close>

text \<open>
  A row of the transaction table. The cell types change along the pipeline:
  before cleaning the amount is \<open>rat option\<close> and the timestamp \<open>int option\<close>.
\<close>

record ('a, 't) row =
  transaction_id :: string
  sender_id :: string
  receiver_id :: string
  amount :: 'a
  timestamp :: 't

type_synonym csv_row = "(rat option, int option) row"
type_synonym df_row = "(rat, int option) row"
type_synonym txn = "(rat, int) row"

text \<open>
  \<open>nx.DiGraph\<close>: the nodes in insertion order, and one weighted edge per ordered pair,
  in insertion order. Adjacency lists follow the order of the edges.
\<close>

record graph =
  nodes :: "string list"
  edges :: "(string \<times> string \<times> rat) list"

definition successors :: "graph \<Rightarrow> string \<Rightarrow> string list" where
  "successors G n = [v. (u, v, a) \<leftarrow> edges G, u = n]"

definition predecessors :: "graph \<Rightarrow> string \<Rightarrow> string list" where
  "predecessors G n = [u. (u, v, a) \<leftarrow> edges G, v = n]"

definition in_degree :: "graph \<Rightarrow> string \<Rightarrow> nat" where
  "in_degree G n = length (predecessors G n)"

definition out_degree :: "graph \<Rightarrow> string \<Rightarrow> nat" where
  "out_degree G n = length (successors G n)"

definition number_of_nodes :: "graph \<Rightarrow> nat" where
  "number_of_nodes G = length (nodes G)"

definition subgraph :: "graph \<Rightarrow> string list \<Rightarrow> graph" where
  "subgraph G ns =
     \<lparr>nodes = [n \<leftarrow> nodes G. n \<in> set ns],
      edges = [(u, v, a) \<leftarrow> edges G. u \<in> set ns \<and> v \<in> set ns]\<rparr>"

text \<open>\<open>G[u][v]["amount"]\<close>; a missing edge is a \<open>KeyError\<close>.\<close>

definition edge_amount :: "graph \<Rightarrow> string \<Rightarrow> string \<Rightarrow> rat option" where
  "edge_amount G u v = map_of (map (\<lambda>(x, y, a). ((x, y), a)) (edges G)) (u, v)"

subsection \<open>I/O: \<open>parse_csv\<close>\<close>

datatype error = ValueError string

definition REQUIRED_COLUMNS :: "string list" where
  "REQUIRED_COLUMNS =
     [''transaction_id'', ''sender_id'', ''receiver_id'', ''amount'', ''timestamp'']"

text \<open>
  \<open>pd.read_csv\<close> yields the header \<open>columns\<close> and the rows; each amount and timestamp
  cell carries the outcome of its coercion. Rows with a NaN amount are dropped, then
  rows with a NaT timestamp; nothing else is removed.
\<close>

definition parse_csv :: "string list \<Rightarrow> csv_row list \<Rightarrow> error + df_row list" where
  "parse_csv columns rows =
     (let cols = map (lower \<circ> strip) columns;
          missing = [c \<leftarrow> REQUIRED_COLUMNS. c \<notin> set cols]
      in if missing \<noteq> []
         then Inl (ValueError (''Missing columns: '' @ join '', '' (sort missing)))
         else Inr [\<lparr>transaction_id = transaction_id r, sender_id = sender_id r,
                    receiver_id = receiver_id r, amount = a, timestamp = Some t\<rparr>.
                   r \<leftarrow> rows, a \<leftarrow> (case amount r of None \<Rightarrow> [] | Some a \<Rightarrow> [a]),
                   t \<leftarrow> (case timestamp r of None \<Rightarrow> [] | Some t \<Rightarrow> [t])])"

subsection \<open>Graph construction: \<open>build_graph\<close>\<close>

text \<open>
  \<open>groupby(["sender_id", "receiver_id"])\<close> sorts its keys; the edges enter the graph
  in that order, and a node enters it with the first edge that mentions it.
\<close>

definition build_graph :: "txn list \<Rightarrow> graph" where
  "build_graph df =
     (let c = [r \<leftarrow> df. sender_id r \<noteq> receiver_id r];
          ks = sort (remdups (map (\<lambda>r. (sender_id r, receiver_id r)) c));
          agg = map (\<lambda>(s, t). (s, t,
                  sum_list [amount r. r \<leftarrow> c, sender_id r = s \<and> receiver_id r = t])) ks
      in \<lparr>nodes = uniq (concat (map (\<lambda>(s, t, a). [s, t]) agg)), edges = agg\<rparr>)"

subsection \<open>Smurfing detection: \<open>detect_smurfing\<close>\<close>

text \<open>The number of distinct counterparties of an account, over both directions.\<close>

definition counterparty_count :: "txn list \<Rightarrow> string \<Rightarrow> nat" where
  "counterparty_count df a =
     nunique ([receiver_id r. r \<leftarrow> df, sender_id r = a] @
              [sender_id r. r \<leftarrow> df, receiver_id r = a])"

definition merchant_whitelist :: "txn list \<Rightarrow> string list" where
  "merchant_whitelist df =
     [a \<leftarrow> sort (remdups (map sender_id df @ map receiver_id df)).
        MERCHANT_THRESHOLD \<le> counterparty_count df a]"

text \<open>\<open>result.setdefault(k, []).append(v)\<close>\<close>

definition setdefault_append :: "string \<Rightarrow> 'v \<Rightarrow> (string \<times> 'v list) list \<Rightarrow> (string \<times> 'v list) list" where
  "setdefault_append k v m =
     (case map_of m k of None \<Rightarrow> m @ [(k, [v])] | Some vs \<Rightarrow> AList.update k (vs @ [v]) m)"

text \<open>\<open>d.get(k, [])\<close>\<close>

definition get_list :: "(string \<times> 'v list) list \<Rightarrow> string \<Rightarrow> 'v list" where
  "get_list m k = (case map_of m k of None \<Rightarrow> [] | Some vs \<Rightarrow> vs)"

text \<open>
  The sliding window of the velocity check. \<open>win\<close> holds the rows \<open>left .. right - 1\<close>;
  the inner \<open>while\<close> advances \<open>left\<close> until the window spans at most 72 hours, which
  never passes \<open>right\<close>. The scan stops at the first window with ten rows from ten
  distinct senders.
\<close>

definition slide :: "(int \<times> string) list \<Rightarrow> int \<times> string \<Rightarrow> (int \<times> string) list" where
  "slide win x = dropWhile (\<lambda>y. window_seconds < fst x - fst y) (win @ [x])"

fun velocity_scan :: "(int \<times> string) list \<Rightarrow> (int \<times> string) list \<Rightarrow> bool" where
  "velocity_scan win [] = False"
| "velocity_scan win (x # xs) =
     (let win' = slide win x; ws = map snd win'
      in if VELOCITY_TX_THRESHOLD \<le> length ws \<and> VELOCITY_TX_THRESHOLD \<le> nunique ws
         then True else velocity_scan win' xs)"

definition fan_in_step :: "txn list \<Rightarrow> string list \<Rightarrow> string \<Rightarrow> (string \<times> string list) list \<Rightarrow> (string \<times> string list) list" where
  "fan_in_step df wl a result =
     (if MIN_FAN_COUNT \<le> nunique [sender_id r. r \<leftarrow> df, receiver_id r = a] \<and> a \<notin> set wl
      then setdefault_append a ''fan_in'' result else result)"

definition fan_out_step :: "txn list \<Rightarrow> string list \<Rightarrow> string \<Rightarrow> (string \<times> string list) list \<Rightarrow> (string \<times> string list) list" where
  "fan_out_step df wl a result =
     (if FAN_OUT_THRESHOLD \<le> nunique [receiver_id r. r \<leftarrow> df, sender_id r = a] \<and> a \<notin> set wl
      then setdefault_append a ''fan_out'' result else result)"

definition velocity_step :: "txn list \<Rightarrow> string \<Rightarrow> (string \<times> string list) list \<Rightarrow> (string \<times> string list) list" where
  "velocity_step df2 acct result =
     (let grp = [r \<leftarrow> df2. receiver_id r = acct]
      in if length grp < VELOCITY_TX_THRESHOLD then result
         else if velocity_scan [] (map (\<lambda>r. (timestamp r, sender_id r)) (sort_key timestamp grp))
         then setdefault_append acct ''high_velocity'' result else result)"

text \<open>Returns the merchant whitelist (the attribute the source assigns) and the pattern map.\<close>

definition detect_smurfing :: "graph \<Rightarrow> txn list \<Rightarrow> string list \<times> (string \<times> string list) list" where
  "detect_smurfing G df =
     (let wl = merchant_whitelist df;
          r1 = fold (fan_in_step df wl) (sort (remdups (map receiver_id df))) [];
          r2 = fold (fan_out_step df wl) (sort (remdups (map sender_id df))) r1;
          df2 = [r \<leftarrow> df. receiver_id r \<notin> set wl];
          r3 = fold (velocity_step df2) (sort (remdups (map receiver_id df2))) r2
      in (wl, r3))"

subsection \<open>Library functions of networkx\<close>

text \<open>
  The three graph algorithms the source calls are library code. Each is rendered here by
  its documented result; where the library leaves an order open (the order of the
  components and of the cycles, and the node a cycle starts from) the rendering follows
  the order of the graph's nodes.
\<close>

text \<open>The nodes reached from \<open>xs\<close> in at most \<open>k\<close> steps.\<close>

fun reach :: "graph \<Rightarrow> nat \<Rightarrow> string list \<Rightarrow> string list" where
  "reach H 0 xs = xs"
| "reach H (Suc k) xs = reach H k (uniq (xs @ concat (map (successors H) xs)))"

definition reachable :: "graph \<Rightarrow> string \<Rightarrow> string \<Rightarrow> bool" where
  "reachable H u v \<longleftrightarrow> v \<in> set (reach H (length (nodes H)) [u])"

definition scc_of :: "graph \<Rightarrow> string \<Rightarrow> string list" where
  "scc_of H n = [m \<leftarrow> nodes H. reachable H n m \<and> reachable H m n]"

text \<open>\<open>nx.strongly_connected_components\<close>: each component once.\<close>

definition strongly_connected_components :: "graph \<Rightarrow> string list list" where
  "strongly_connected_components H =
     fold (\<lambda>n comps. if n \<in> set (concat comps) then comps else comps @ [scc_of H n])
       (nodes H) []"

text \<open>
  \<open>nx.simple_cycles(H, length_bound)\<close>: every elementary cycle of at most \<open>length_bound\<close>
  nodes, once, written from its first node in node order. \<open>ext_cycles\<close> extends the
  path \<open>path\<close>, which ends in \<open>v\<close>, through the nodes of \<open>allowed\<close>.
\<close>

fun ext_cycles :: "graph \<Rightarrow> string list \<Rightarrow> string \<Rightarrow> nat \<Rightarrow> string \<Rightarrow> string list \<Rightarrow> string list list" where
  "ext_cycles H allowed s 0 v path = []"
| "ext_cycles H allowed s (Suc k) v path =
     (if s \<in> set (successors H v) then [path] else []) @
     concat (map (\<lambda>w. ext_cycles H allowed s k w (path @ [w]))
               [w \<leftarrow> successors H v. w \<in> set allowed \<and> w \<notin> set path])"

fun cycles_rooted :: "graph \<Rightarrow> nat \<Rightarrow> string list \<Rightarrow> string list list" where
  "cycles_rooted H bound [] = []"
| "cycles_rooted H bound (s # rest) =
     ext_cycles H rest s bound s [s] @ cycles_rooted H bound rest"

definition simple_cycles :: "graph \<Rightarrow> nat \<Rightarrow> string list list" where
  "simple_cycles H length_bound = cycles_rooted H length_bound (nodes H)"

text \<open>
  \<open>nx.betweenness_centrality(H)\<close>, normalised, without endpoints, on hop counts:
  the sum over the ordered pairs \<open>(s, t)\<close> away from \<open>v\<close> of the share of the shortest
  \<open>s\<close>-\<open>t\<close> paths through \<open>v\<close>, scaled by \<open>1 / ((n - 1) (n - 2))\<close> when \<open>n > 2\<close>.
  \<open>walks H k s t\<close> counts the walks of \<open>k\<close> edges; the shortest ones are the paths.
\<close>

fun walks :: "graph \<Rightarrow> nat \<Rightarrow> string \<Rightarrow> string \<Rightarrow> nat" where
  "walks H 0 s t = (if s = t then 1 else 0)"
| "walks H (Suc k) s t = sum_list (map (\<lambda>u. walks H k u t) (successors H s))"

definition hop_dist :: "graph \<Rightarrow> string \<Rightarrow> string \<Rightarrow> nat option" where
  "hop_dist H s t = List.find (\<lambda>k. 0 < walks H k s t) [0 ..< length (nodes H)]"

definition sigma :: "graph \<Rightarrow> string \<Rightarrow> string \<Rightarrow> nat" where
  "sigma H s t = (case hop_dist H s t of None \<Rightarrow> 0 | Some d \<Rightarrow> walks H d s t)"

definition sigma_through :: "graph \<Rightarrow> string \<Rightarrow> string \<Rightarrow> string \<Rightarrow> nat" where
  "sigma_through H s t v =
     (case (hop_dist H s t, hop_dist H s v, hop_dist H v t) of
        (Some d, Some d1, Some d2) \<Rightarrow> if d1 + d2 = d then sigma H s v * sigma H v t else 0
      | _ \<Rightarrow> 0)"

definition betweenness_centrality :: "graph \<Rightarrow> (string \<times> rat) list" where
  "betweenness_centrality H =
     (let n = length (nodes H);
          scale = (if 2 < n then 1 / (of_nat (n - 1) * of_nat (n - 2)) else 1)
      in map (\<lambda>v. (v, scale *
            sum_list [of_nat (sigma_through H s t v) / of_nat (sigma H s t).
                      s \<leftarrow> nodes H, t \<leftarrow> nodes H,
                      s \<noteq> v \<and> t \<noteq> v \<and> s \<noteq> t \<and> 0 < sigma H s t])) (nodes H))"

subsection \<open>Cycle detection: \<open>detect_cycles\<close>\<close>

definition degree_desc :: "graph \<Rightarrow> string list \<Rightarrow> string list" where
  "degree_desc H ns =
     map fst (sorted_desc (\<lambda>(n, d). of_nat d) (map (\<lambda>n. (n, in_degree H n + out_degree H n)) ns))"

definition trim_scc :: "(string \<Rightarrow> nat) \<Rightarrow> graph \<Rightarrow> string list \<Rightarrow> string list" where
  "trim_scc hsh G ns =
     (if length ns \<le> MAX_SCC_SIZE then ns
      else take MAX_SCC_SIZE (degree_desc (subgraph G ns) (set_iter hsh ns)))"

text \<open>The nodes the cycle search runs on: trimmed components, whitelist removed, budget applied.\<close>

definition search_nodes :: "(string \<Rightarrow> nat) \<Rightarrow> string list \<Rightarrow> graph \<Rightarrow> string list" where
  "search_nodes hsh wl G =
     (let cands = [n \<leftarrow> nodes G. 0 < in_degree G n \<and> 0 < out_degree G n];
          scc_nodes = uniq (concat (map (trim_scc hsh G)
                        [scc \<leftarrow> strongly_connected_components (subgraph G cands). 2 \<le> length scc]));
          scc_nodes = [n \<leftarrow> scc_nodes. n \<notin> set wl]
      in if MAX_CYCLE_SEARCH_NODES < length scc_nodes
         then (let pinned = [n \<leftarrow> scc_nodes. is_fraud n];
                   slots = int MAX_CYCLE_SEARCH_NODES - int (length pinned);
                   top = take (nat (max slots 0))
                           (degree_desc G [n \<leftarrow> set_iter hsh scc_nodes. n \<notin> set pinned])
               in uniq (pinned @ top))
         else scc_nodes)"

text \<open>The sum of the edge amounts along a cycle, \<open>cs[i] \<rightarrow> cs[(i+1) % len(cs)]\<close>.\<close>

fun sum_options :: "rat option list \<Rightarrow> rat option" where
  "sum_options [] = Some 0"
| "sum_options (None # xs) = None"
| "sum_options (Some a # xs) = (case sum_options xs of None \<Rightarrow> None | Some b \<Rightarrow> Some (a + b))"

definition cycle_total :: "graph \<Rightarrow> string list \<Rightarrow> rat option" where
  "cycle_total G cs = sum_options (map (\<lambda>(u, v). edge_amount G u v) (zip cs (rotate1 cs)))"

text \<open>The body of the loop over the enumerated cycles: is the cycle appended to \<open>raw\<close>?\<close>

definition cycle_kept :: "graph \<Rightarrow> string list \<Rightarrow> bool option" where
  "cycle_kept G cs =
     (if \<not> (MIN_CYCLE_LENGTH \<le> length cs \<and> length cs \<le> MAX_CYCLE_LENGTH) then Some False
      else case cycle_total G cs of
        None \<Rightarrow> None
      | Some tot \<Rightarrow>
          (let avg = tot / of_nat (length cs);
               has_fraud = list_ex is_fraud cs;
               all_l = all_legit cs;
               min_a = MIN_CYCLE_AMOUNT
           in if all_l then (if avg < 25000 then Some False else Some (min_a * 3 \<le> tot))
              else if has_fraud then Some (min_a * (1 / 2) \<le> tot)
              else Some (min_a \<le> tot)))"

fun raw_cycles :: "graph \<Rightarrow> string list list \<Rightarrow> string list list option" where
  "raw_cycles G [] = Some []"
| "raw_cycles G (c # cs) =
     (case cycle_kept G c of
        None \<Rightarrow> None
      | Some k \<Rightarrow> (case raw_cycles G cs of
                    None \<Rightarrow> None
                  | Some raw \<Rightarrow> Some (if k then c # raw else raw)))"

text \<open>
  Union-find with path halving. \<open>find_uf\<close> is the source's \<open>find\<close>: it returns the
  root together with the updated \<open>parent\<close> dict, and no value if the loop never ends.
\<close>

type_synonym parent = "(string \<times> string) list"

definition get_parent :: "parent \<Rightarrow> string \<Rightarrow> string" where
  "get_parent parent x = (case map_of parent x of None \<Rightarrow> x | Some y \<Rightarrow> y)"

partial_function (option) find_uf :: "parent \<Rightarrow> string \<Rightarrow> (parent \<times> string) option" where
  "find_uf parent x =
     (if get_parent parent x \<noteq> x
      then (let px = get_parent parent x;
                parent' = AList.update x (get_parent parent px) parent
            in find_uf parent' (get_parent parent' x))
      else Some (parent, x))"

declare find_uf.simps [code]

definition union_uf :: "string \<Rightarrow> string \<Rightarrow> parent \<Rightarrow> parent option" where
  "union_uf a b parent =
     (case find_uf parent a of
        None \<Rightarrow> None
      | Some (p1, ra) \<Rightarrow>
          (case find_uf p1 b of
             None \<Rightarrow> None
           | Some (p2, rb) \<Rightarrow> Some (if ra \<noteq> rb then AList.update ra rb p2 else p2)))"

text \<open>A loop whose body may fail: the state is threaded through, a failure ends it.\<close>

fun fold_option :: "('a \<Rightarrow> 's \<Rightarrow> 's option) \<Rightarrow> 'a list \<Rightarrow> 's \<Rightarrow> 's option" where
  "fold_option f [] s = Some s"
| "fold_option f (x # xs) s = (case f x s of None \<Rightarrow> None | Some s' \<Rightarrow> fold_option f xs s')"

definition union_cycle :: "string list \<Rightarrow> parent \<Rightarrow> parent option" where
  "union_cycle c parent =
     (case c of [] \<Rightarrow> Some parent | c0 # rest \<Rightarrow> fold_option (union_uf c0) rest parent)"

text \<open>\<open>groups[find(n)].add(n)\<close>; the state is the \<open>parent\<close> dict and the groups.\<close>

definition group_step :: "string \<Rightarrow> parent \<times> (string \<times> string list) list \<Rightarrow> (parent \<times> (string \<times> string list) list) option" where
  "group_step n st =
     (case find_uf (fst st) n of
        None \<Rightarrow> None
      | Some (p, r) \<Rightarrow> Some (p, AList.update r (insert_new n (get_list (snd st) r)) (snd st)))"

record cycle_data =
  ring_map :: "(string \<times> string) list"
  rings :: "(string \<times> string list) list"
  raw_cycles_of :: "string list list"
  cycle_members :: "string list"

text \<open>\<open>cycle_data["member_cycles"].get(n, [])\<close>: the kept cycles through \<open>n\<close>, in order.\<close>

definition member_cycles :: "cycle_data \<Rightarrow> string \<Rightarrow> string list list" where
  "member_cycles cd n = [c. c \<leftarrow> raw_cycles_of cd, m \<leftarrow> c, m = n]"

text \<open>
  The groups sorted by their least member and labelled from 1. \<open>sorted(x[1])[0]\<close> on an
  empty group would be an \<open>IndexError\<close>.
\<close>

definition label_groups :: "(string \<Rightarrow> nat) \<Rightarrow> (string \<times> string list) list \<Rightarrow> ((string \<times> string list) list \<times> (string \<times> string) list) option" where
  "label_groups hsh groups =
     (if list_ex (\<lambda>(r, mbrs). mbrs = []) groups then None
      else (let ordered = sort_key (\<lambda>(r, mbrs). hd (sort mbrs)) groups;
                labelled = map (\<lambda>(idx, (r, mbrs)). (ring_label idx, mbrs))
                             (zip [1 ..< Suc (length ordered)] ordered)
            in Some (fold (\<lambda>(rid, mbrs) rs. AList.update rid mbrs rs) labelled [],
                     fold (\<lambda>(rid, mbrs) rm. fold (\<lambda>m. AList.update m rid) (set_iter hsh mbrs) rm)
                       labelled [])))"

definition detect_cycles :: "(string \<Rightarrow> nat) \<Rightarrow> string list \<Rightarrow> graph \<Rightarrow> cycle_data option" where
  "detect_cycles hsh wl G =
     (let scc_nodes = search_nodes hsh wl G
      in case raw_cycles G (simple_cycles (subgraph G scc_nodes) MAX_CYCLE_LENGTH) of
           None \<Rightarrow> None
         | Some raw \<Rightarrow>
             (case fold_option union_cycle raw [] of
                None \<Rightarrow> None
              | Some parent \<Rightarrow>
                  (let all_cm = uniq (concat raw)
                   in case fold_option group_step (set_iter hsh all_cm) (parent, []) of
                        None \<Rightarrow> None
                      | Some (parent', groups) \<Rightarrow>
                          (case label_groups hsh groups of
                             None \<Rightarrow> None
                           | Some (rs, rm) \<Rightarrow>
                               Some \<lparr>ring_map = rm, rings = rs, raw_cycles_of = raw,
                                     cycle_members = all_cm\<rparr>))))"

subsection \<open>Shell detection: \<open>detect_shell_chains\<close>\<close>

definition tx_count :: "txn list \<Rightarrow> string \<Rightarrow> nat" where
  "tx_count df n = length [r \<leftarrow> df. sender_id r = n] + length [r \<leftarrow> df. receiver_id r = n]"

definition potential_shells :: "string list \<Rightarrow> graph \<Rightarrow> txn list \<Rightarrow> string list \<Rightarrow> string list" where
  "potential_shells wl G df cycle_members' =
     (let cands = [n \<leftarrow> uniq (map sender_id df @ map receiver_id df).
                     1 \<le> tx_count df n \<and> tx_count df n \<le> SHELL_MAX_TX_COUNT];
          cands = [n \<leftarrow> cands. n \<notin> set wl];
          cands = [n \<leftarrow> cands. n \<notin> set cycle_members']
      in [n \<leftarrow> cands. n \<in> set (nodes G) \<and> in_degree G n = 1 \<and> 1 \<le> out_degree G n])"

lemma walk_measure:
  assumes "x \<in> set pot" "x \<notin> set seg"
  shows "card (set pot - set seg) - Suc 0 < card (set pot - set seg)"
proof -
  have "x \<in> set pot - set seg" using assms by simp
  then have "0 < card (set pot - set seg)"
    by (metis List.finite_set card_gt_0_iff empty_iff finite_Diff)
  then show ?thesis by simp
qed

text \<open>The backward walk: \<open>while curr in pot and curr not in seg\<close>.\<close>

function back_walk :: "graph \<Rightarrow> string list \<Rightarrow> string \<Rightarrow> string list \<Rightarrow> string list" where
  "back_walk G pot cur seg =
     (if cur \<in> set pot \<and> cur \<notin> set seg
      then (case predecessors G cur of
              [] \<Rightarrow> cur # seg
            | prev # _ \<Rightarrow> if prev \<in> set pot then back_walk G pot prev (cur # seg)
                          else prev # cur # seg)
      else seg)"
  by pat_completeness auto
termination
  by (relation "measure (\<lambda>(G, pot, cur, seg). card (set pot - set seg))")
     (auto intro: walk_measure)

text \<open>The forward walk: \<open>while True\<close>, left through one of the two \<open>break\<close>s.\<close>

function fwd_walk :: "graph \<Rightarrow> string list \<Rightarrow> string \<Rightarrow> string list \<Rightarrow> string list" where
  "fwd_walk G pot cur seg =
     (case successors G cur of
        [] \<Rightarrow> seg
      | nxt # _ \<Rightarrow> if nxt \<in> set pot \<and> nxt \<notin> set seg then fwd_walk G pot nxt (seg @ [nxt])
                    else seg @ [nxt])"
  by pat_completeness auto
termination
  by (relation "measure (\<lambda>(G, pot, cur, seg). card (set pot - set seg))")
     (auto intro: walk_measure)

definition shell_step :: "graph \<Rightarrow> string list \<Rightarrow> string \<Rightarrow> (string \<times> nat) list \<times> string list \<Rightarrow> (string \<times> nat) list \<times> string list" where
  "shell_step G pot start st =
     (let (shell_map, seen) = st
      in if start \<in> set seen then st
         else (let seg = back_walk G pot start [];
                   seg = fwd_walk G pot (last seg) seg
               in if 4 \<le> length seg
                  then (let shells = [n \<leftarrow> seg. n \<in> set pot]
                        in if 2 \<le> length shells
                           then (fold (\<lambda>n. AList.update n (length seg)) shells shell_map,
                                 fold insert_new shells seen)
                           else st)
                  else st))"

definition detect_shell_chains :: "(string \<Rightarrow> nat) \<Rightarrow> string list \<Rightarrow> graph \<Rightarrow> txn list \<Rightarrow> string list \<Rightarrow> (string \<times> nat) list" where
  "detect_shell_chains hsh wl G df cycle_members' =
     (let pot = potential_shells wl G df cycle_members'
      in fst (fold (shell_step G pot) (set_iter hsh pot) ([], [])))"

subsection \<open>Mastermind detection: \<open>detect_mastermind\<close>\<close>

text \<open>\<open>d.get(k, default)\<close>\<close>

definition get_or :: "(string \<times> 'v) list \<Rightarrow> string \<Rightarrow> 'v \<Rightarrow> 'v" where
  "get_or d k dflt = (case map_of d k of None \<Rightarrow> dflt | Some v \<Rightarrow> v)"

text \<open>
  \<open>ring_count\<close>: in how many rings an account appears; \<open>ring_count.get(m, 1)\<close> is 1 for
  an account that appears in none.
\<close>

definition ring_count :: "(string \<times> string list) list \<Rightarrow> string \<Rightarrow> nat" where
  "ring_count rs m = length [rid. (rid, mbrs) \<leftarrow> rs, m \<in> set mbrs]"

definition ring_count_get :: "(string \<times> string list) list \<Rightarrow> string \<Rightarrow> nat" where
  "ring_count_get rs m = (if ring_count rs m = 0 then 1 else ring_count rs m)"

text \<open>Min-max normalisation of a dict; all values are 0.5 when the extremes coincide.\<close>

definition norm :: "(string \<times> rat) list \<Rightarrow> (string \<times> rat) list" where
  "norm d =
     (if d = [] then []
      else (let v = map snd d; mn = Min (set v); mx = Max (set v)
            in if mn < mx then map (\<lambda>(k, x). (k, (x - mn) / (mx - mn))) d
               else map (\<lambda>(k, x). (k, 1 / 2)) d))"

definition composite :: "(string \<times> rat) list \<Rightarrow> (string \<times> rat) list \<Rightarrow> (string \<times> rat) list \<Rightarrow> string \<Rightarrow> rat" where
  "composite bc od vol n =
     get_or bc n (1 / 2) * (1 / 10) + get_or od n (1 / 2) * (1 / 2) + get_or vol n (1 / 2) * (2 / 5)"

text \<open>The search for the best member: \<open>if c > best_c: best_c = c; best = n\<close>.\<close>

fun select_best :: "(string \<Rightarrow> rat) \<Rightarrow> string list \<Rightarrow> string option \<times> rat \<Rightarrow> string option \<times> rat" where
  "select_best c [] acc = acc"
| "select_best c (n # ns) acc =
     select_best c ns (if snd acc < c n then (Some n, c n) else acc)"

definition base_score :: "rat \<Rightarrow> rat" where
  "base_score best_c =
     (if 9 / 10 \<le> best_c then 95 + ((best_c - 9 / 10) / (1 / 10)) * 5
      else if 8 / 10 \<le> best_c then 85 + ((best_c - 8 / 10) / (1 / 10)) * 10
      else 75 + ((best_c - 7 / 10) / (1 / 10)) * 10)"

definition out_volume :: "graph \<Rightarrow> string list \<Rightarrow> string \<Rightarrow> rat" where
  "out_volume G mbrs n = sum_list [a. (u, t, a) \<leftarrow> edges G, u = n \<and> t \<in> set mbrs]"

text \<open>The composite of every member of one ring, and the best member with its composite.\<close>

definition ring_composite :: "(string \<Rightarrow> nat) \<Rightarrow> graph \<Rightarrow> string list \<Rightarrow> string \<Rightarrow> rat" where
  "ring_composite hsh G mbrs =
     (let sub = subgraph G mbrs;
          bc = norm (betweenness_centrality sub);
          od = norm (map (\<lambda>n. (n, of_nat (out_degree sub n))) (set_iter hsh mbrs));
          vol = norm (map (\<lambda>n. (n, out_volume G mbrs n)) (set_iter hsh mbrs))
      in composite bc od vol)"

definition ring_best :: "(string \<Rightarrow> nat) \<Rightarrow> graph \<Rightarrow> string list \<Rightarrow> string option \<times> rat" where
  "ring_best hsh G mbrs =
     select_best (ring_composite hsh G mbrs) (set_iter hsh mbrs) (None, - 1)"

text \<open>
  The body of the loop over the rings: the entry of \<open>result\<close> for this ring, or \<open>None\<close>
  where the source runs into a \<open>continue\<close>. \<open>not best\<close> holds for \<open>None\<close> and for the
  empty string.
\<close>

definition ring_mastermind :: "(string \<Rightarrow> nat) \<Rightarrow> graph \<Rightarrow> (string \<times> string list) list \<Rightarrow> string list \<Rightarrow> (string \<times> rat) option" where
  "ring_mastermind hsh G rs mbrs =
     (if all_legit mbrs then None
      else if number_of_nodes (subgraph G mbrs) \<le> 1 then None
      else (case ring_best hsh G mbrs of
              (None, best_c) \<Rightarrow> None
            | (Some best, best_c) \<Rightarrow>
                if best = [] \<or> best_c < 3 / 4 then None
                else Some (best,
                       py_round (min 100 (base_score best_c +
                          of_int ((int (ring_count_get rs best) - 1) * 15))) 1)))"

definition detect_mastermind :: "(string \<Rightarrow> nat) \<Rightarrow> graph \<Rightarrow> (string \<times> string list) list \<Rightarrow> (string \<times> string \<times> rat) list" where
  "detect_mastermind hsh G rs =
     (if rs = [] then []
      else fold (\<lambda>(rid, mbrs) result.
                   case ring_mastermind hsh G rs mbrs of
                     None \<Rightarrow> result
                   | Some v \<Rightarrow> AList.update rid v result) rs [])"

subsection \<open>Suspicion scoring: \<open>compute_suspicion_score\<close>\<close>

record pre =
  in_degrees :: "(string \<times> nat) list"
  out_degrees :: "(string \<times> nat) list"
  total_nodes :: nat
  velocity_counts :: "(string \<times> nat) list"

record breakdown =
  cycle_score :: rat
  velocity_score :: rat
  fan_score :: rat
  shell_score :: rat

record score = breakdown +
  total_score :: rat

text \<open>The window scan of the fallback path: the largest number of rows in a window.\<close>

fun count_scan :: "int list \<Rightarrow> int list \<Rightarrow> nat \<Rightarrow> nat" where
  "count_scan win [] vel = vel"
| "count_scan win (t # ts) vel =
     (let win' = dropWhile (\<lambda>y. window_seconds < t - y) (win @ [t])
      in count_scan win' ts (max vel (length win')))"

definition fallback_velocity :: "txn list \<Rightarrow> string \<Rightarrow> nat" where
  "fallback_velocity df account =
     (let sub = [r \<leftarrow> df. sender_id r = account \<or> receiver_id r = account]
      in if sub = [] then 0 else count_scan [] (sort (map timestamp sub)) 0)"

text \<open>The four components, each as the source computes it before rounding.\<close>

definition cycle_component :: "string list list \<Rightarrow> rat" where
  "cycle_component ccs =
     (if ccs \<noteq> [] \<and> Min (set (map length ccs)) \<le> 3 then 40
      else if ccs \<noteq> [] \<and> Min (set (map length ccs)) = 4 then 35
      else if ccs \<noteq> [] then 30 else 0)"

definition velocity_component :: "nat \<Rightarrow> rat" where
  "velocity_component vel = min 25 ((of_nat vel / of_nat VELOCITY_TX_THRESHOLD) * 25)"

definition fan_component :: "nat \<Rightarrow> nat \<Rightarrow> nat \<Rightarrow> string list \<Rightarrow> rat" where
  "fan_component in_d out_d N pats =
     (let fscore = min 20 ((of_nat (in_d + out_d) / of_nat (max (N * 2) 1)) * 200)
      in if ''fan_in'' \<in> set pats \<and> ''fan_out'' \<in> set pats then 20
         else if ''fan_in'' \<in> set pats \<or> ''fan_out'' \<in> set pats then max fscore 15
         else fscore)"

definition shell_component :: "nat \<Rightarrow> rat" where
  "shell_component d = (if 4 \<le> d then 15 else if d = 3 then 10 else if 1 \<le> d then 5 else 0)"

text \<open>The statistics the scorer reads: from \<open>pre\<close> when it is given, else recomputed.\<close>

definition score_inputs :: "string \<Rightarrow> graph \<Rightarrow> txn list \<Rightarrow> pre option \<Rightarrow> nat \<times> nat \<times> nat \<times> nat" where
  "score_inputs account G df pre' =
     (case pre' of
        Some p \<Rightarrow> (get_or (in_degrees p) account 0, get_or (out_degrees p) account 0,
                   total_nodes p, get_or (velocity_counts p) account 0)
      | None \<Rightarrow> (if account \<in> set (nodes G) then in_degree G account else 0,
                 if account \<in> set (nodes G) then out_degree G account else 0,
                 number_of_nodes G, fallback_velocity df account))"

definition compute_suspicion_score :: "string \<Rightarrow> graph \<Rightarrow> txn list \<Rightarrow> cycle_data \<Rightarrow> (string \<times> string list) list \<Rightarrow> (string \<times> nat) list \<Rightarrow> pre option \<Rightarrow> score" where
  "compute_suspicion_score account G df cycle_map smurfing_map shell_map pre' =
     (let (in_d, out_d, N, vel) = score_inputs account G df pre';
          cscore = cycle_component (member_cycles cycle_map account);
          vscore = velocity_component vel;
          fscore = fan_component in_d out_d N (get_list smurfing_map account);
          sscore = shell_component (get_or shell_map account 0);
          tot = cscore + vscore + fscore + sscore
      in \<lparr>cycle_score = py_round cscore 2, velocity_score = py_round vscore 2,
          fan_score = py_round fscore 2, shell_score = py_round sscore 2,
          total_score = min 100 (py_round tot 2)\<rparr>)"

subsection \<open>Main pipeline: \<open>run\<close>\<close>

record suspect =
  account_id :: string
  suspicion_score :: rat
  detected_patterns :: "string list"
  suspect_ring_id :: "string option"
  is_mastermind :: bool
  mastermind_score :: "rat option"
  score_breakdown :: breakdown

record ring =
  ring_id :: string
  member_accounts :: "string list"
  pattern_type :: string
  risk_score :: rat
  mastermind_account :: "string option"
  transaction_count :: nat
  total_amount :: rat

record summary =
  total_accounts_analyzed :: nat
  suspicious_accounts_flagged :: nat
  fraud_rings_detected :: nat
  mastermind_accounts_identified :: nat
  false_positives_filtered :: nat

record analysis_result =
  suspicious_accounts :: "suspect list"
  fraud_rings :: "ring list"
  summary :: summary

text \<open>The local variables \<open>suspects\<close>, \<open>fraud_rings\<close>, \<open>ring_map\<close> and \<open>fp\<close> of \<open>run\<close>.\<close>

record state =
  st_suspects :: "suspect list"
  st_rings :: "ring list"
  st_ring_map :: "(string \<times> string) list"
  st_fp :: nat

text \<open>
  The cleaning at the head of \<open>run\<close>: rows whose timestamp does not parse are dropped,
  then self-transfers.
\<close>

definition clean :: "df_row list \<Rightarrow> txn list" where
  "clean df =
     [\<lparr>transaction_id = transaction_id r, sender_id = sender_id r,
       receiver_id = receiver_id r, amount = amount r, timestamp = t\<rparr>.
      r \<leftarrow> df, t \<leftarrow> (case timestamp r of None \<Rightarrow> [] | Some t \<Rightarrow> [t]),
      sender_id r \<noteq> receiver_id r]"

text \<open>The window scan of the pipeline: the largest number of distinct senders in a window.\<close>

fun distinct_scan :: "(int \<times> string) list \<Rightarrow> (int \<times> string) list \<Rightarrow> nat \<Rightarrow> nat" where
  "distinct_scan win [] mx = mx"
| "distinct_scan win (x # xs) mx =
     (let win' = slide win x; u = nunique (map snd win')
      in distinct_scan win' xs (if mx < u then u else mx))"

definition velocity_counts_of :: "txn list \<Rightarrow> string list \<Rightarrow> (string \<times> nat) list" where
  "velocity_counts_of df all_ids =
     (let rx_susp = sort_key timestamp [r \<leftarrow> df. receiver_id r \<in> set all_ids]
      in fold (\<lambda>acct vc.
                 AList.update acct
                   (distinct_scan []
                      (map (\<lambda>r. (timestamp r, sender_id r))
                         (sort_key timestamp [r \<leftarrow> rx_susp. receiver_id r = acct])) 0) vc)
           (sort (remdups (map receiver_id rx_susp))) [])"

definition make_pre :: "graph \<Rightarrow> txn list \<Rightarrow> string list \<Rightarrow> pre" where
  "make_pre G df all_ids =
     \<lparr>in_degrees = map (\<lambda>n. (n, in_degree G n)) (nodes G),
      out_degrees = map (\<lambda>n. (n, out_degree G n)) (nodes G),
      total_nodes = number_of_nodes G,
      velocity_counts = velocity_counts_of df all_ids\<rparr>"

definition patterns_of :: "cycle_data \<Rightarrow> (string \<times> string list) list \<Rightarrow> (string \<times> nat) list \<Rightarrow> string \<Rightarrow> string list" where
  "patterns_of cd smurf_map shell_map acct =
     (let pats = fold (\<lambda>cn. insert_new (''cycle_length_'' @ dec (length cn)))
                   (member_cycles cd acct) [];
          pats = fold insert_new (get_list smurf_map acct) pats;
          pats = (if acct \<in> fst ` set shell_map
                  then pats @ [''shell_chain'', ''low_transaction_intermediary''] else pats)
      in uniq pats)"

text \<open>
  The body of the loop over \<open>all_ids\<close>: the suspect appended for \<open>acct\<close>, or \<open>None\<close>
  when its total is not positive.
\<close>

definition suspect_of :: "graph \<Rightarrow> txn list \<Rightarrow> cycle_data \<Rightarrow> (string \<times> string list) list \<Rightarrow> (string \<times> nat) list \<Rightarrow> pre \<Rightarrow> (string \<times> string \<times> rat) list \<Rightarrow> string \<Rightarrow> suspect option" where
  "suspect_of G df cd smurf_map shell_map p mm_data acct =
     (let sc = compute_suspicion_score acct G df cd smurf_map shell_map (Some p)
      in if total_score sc \<le> 0 then None
         else (let mm_ids = map (\<lambda>(rid, a, s). a) mm_data;
                   mm_rid = fold (\<lambda>(rid, a, s). AList.update a rid) mm_data [];
                   is_mm = (acct \<in> set mm_ids);
                   mm_score = (if is_mm \<and> get_or mm_rid acct [] \<noteq> []
                               then map_option snd (map_of mm_data (get_or mm_rid acct []))
                               else None)
               in Some \<lparr>account_id = acct, suspicion_score = total_score sc,
                        detected_patterns = patterns_of cd smurf_map shell_map acct,
                        suspect_ring_id = map_of (ring_map cd) acct,
                        is_mastermind = is_mm, mastermind_score = mm_score,
                        score_breakdown = breakdown.truncate sc\<rparr>))"

definition ring_txns :: "txn list \<Rightarrow> string list \<Rightarrow> txn list" where
  "ring_txns df mbrs = [r \<leftarrow> df. sender_id r \<in> set mbrs \<and> receiver_id r \<in> set mbrs]"

definition cycle_ring :: "txn list \<Rightarrow> suspect list \<Rightarrow> (string \<times> string \<times> rat) list \<Rightarrow> string \<times> string list \<Rightarrow> ring" where
  "cycle_ring df suspects mm_data entry =
     (let (rid, mbrs) = entry;
          rt = ring_txns df mbrs;
          ms = [suspicion_score s. s \<leftarrow> suspects, account_id s \<in> set mbrs]
      in \<lparr>ring_id = rid, member_accounts = sort mbrs, pattern_type = ''cycle'',
          risk_score = py_round (if ms \<noteq> [] then Max (set ms) else 50) 1,
          mastermind_account = map_option fst (map_of mm_data rid),
          transaction_count = length rt,
          total_amount = py_round (sum_list (map amount rt)) 2\<rparr>)"

text \<open>
  The members of a new ring that carry no label yet get the label, in \<open>ring_map\<close> and in
  their suspect record.
\<close>

definition attach_member :: "string \<Rightarrow> string \<Rightarrow> state \<Rightarrow> state" where
  "attach_member rid m st =
     (if m \<in> fst ` set (st_ring_map st) then st
      else st\<lparr>st_ring_map := AList.update m rid (st_ring_map st),
              st_suspects := map (\<lambda>s. if account_id s = m
                                       then s\<lparr>suspect_ring_id := Some rid\<rparr> else s)
                               (st_suspects st)\<rparr>)"

definition attach :: "(string \<Rightarrow> nat) \<Rightarrow> string \<Rightarrow> string list \<Rightarrow> state \<Rightarrow> state" where
  "attach hsh rid mbrs st = fold (attach_member rid) (set_iter hsh mbrs) st"

text \<open>The loop over \<open>smurf_map.items()\<close>; the counter \<open>s_ctr\<close> travels with the state.\<close>

definition smurf_step :: "(string \<Rightarrow> nat) \<Rightarrow> string list \<Rightarrow> graph \<Rightarrow> txn list \<Rightarrow> string \<times> string list \<Rightarrow> state \<times> nat \<Rightarrow> state \<times> nat" where
  "smurf_step hsh wl G df entry sc =
     (let (hub, pats) = entry; (st, s_ctr) = sc
      in if hub \<in> fst ` set (st_ring_map st) then sc
         else if ''fan_in'' \<notin> set pats then sc
         else if hub \<in> set wl then sc
         else (let preds = predecessors G hub
               in if length preds < MIN_FAN_COUNT then sc
                  else (let mbrs_set = uniq (hub # preds)
                        in if all_legit mbrs_set then sc
                           else if ''high_velocity'' \<notin> set pats \<and> \<not> list_ex is_fraud mbrs_set
                           then sc
                           else (let rid = ring_label s_ctr;
                                     rt = ring_txns df mbrs_set;
                                     r = \<lparr>ring_id = rid, member_accounts = sort mbrs_set,
                                          pattern_type = ''smurfing'',
                                          risk_score = py_round (min (849 / 10)
                                            (55 + (of_nat (length preds) / 50) * 20)) 1,
                                          mastermind_account = None,
                                          transaction_count = length rt,
                                          total_amount = py_round (sum_list (map amount rt)) 2\<rparr>
                                 in (attach hsh rid mbrs_set
                                       (st\<lparr>st_rings := st_rings st @ [r]\<rparr>),
                                     Suc s_ctr)))))"

text \<open>
  The stack walk of the shell rings; the head of \<open>stk\<close> is the top of the stack.
  It returns \<open>chain\<close> and the updated \<open>seen_sh\<close>.
\<close>

lemma dfs_measure:
  assumes "x \<in> fst ` set shell_map" "x \<notin> set seen"
  shows "card (fst ` set shell_map - set seen) - Suc 0 < card (fst ` set shell_map - set seen)"
proof -
  have "x \<in> fst ` set shell_map - set seen" using assms by simp
  then have "0 < card (fst ` set shell_map - set seen)"
    by (metis List.finite_set card_gt_0_iff empty_iff finite_Diff finite_imageI)
  then show ?thesis by simp
qed

function shell_dfs :: "graph \<Rightarrow> (string \<times> nat) list \<Rightarrow> string list \<Rightarrow> string list \<Rightarrow> string list \<Rightarrow> string list \<times> string list" where
  "shell_dfs G shell_map [] chain seen = (chain, seen)"
| "shell_dfs G shell_map (c # stk) chain seen =
     (if c \<in> set seen then shell_dfs G shell_map stk chain seen
      else if c \<in> fst ` set shell_map
      then shell_dfs G shell_map (rev (successors G c @ predecessors G c) @ stk)
             (insert_new c chain) (insert_new c seen)
      else shell_dfs G shell_map stk chain seen)"
  by pat_completeness auto
termination
  by (relation "measures [\<lambda>(G, shell_map, stk, chain, seen). card (fst ` set shell_map - set seen),
                          \<lambda>(G, shell_map, stk, chain, seen). length stk]")
     (auto simp: insert_new_def intro: dfs_measure)

definition shell_ring_step :: "(string \<Rightarrow> nat) \<Rightarrow> graph \<Rightarrow> txn list \<Rightarrow> (string \<times> nat) list \<Rightarrow> string \<Rightarrow> (state \<times> nat) \<times> string list \<Rightarrow> (state \<times> nat) \<times> string list" where
  "shell_ring_step hsh G df shell_map sh_node acc =
     (let ((st, sh_ctr), seen_sh) = acc
      in if sh_node \<in> set seen_sh \<or> sh_node \<in> fst ` set (st_ring_map st) then acc
         else (let (chain, seen_sh') = shell_dfs G shell_map [sh_node] [] seen_sh
               in if 2 \<le> length chain
                  then (let rid = ring_label sh_ctr;
                            rt = ring_txns df chain;
                            r = \<lparr>ring_id = rid, member_accounts = sort chain,
                                 pattern_type = ''shell'',
                                 risk_score = py_round (50 + (of_nat (length chain) / 10) * 15) 1,
                                 mastermind_account = None,
                                 transaction_count = length rt,
                                 total_amount = py_round (sum_list (map amount rt)) 2\<rparr>
                        in ((attach hsh rid chain (st\<lparr>st_rings := st_rings st @ [r]\<rparr>),
                             Suc sh_ctr), seen_sh'))
                  else ((st, sh_ctr), seen_sh')))"

text \<open>The post-filter. \<open>drop\<close> removes the rings of \<open>rids\<close> and the suspects labelled with them.\<close>

definition drop_rings :: "string list \<Rightarrow> state \<Rightarrow> state" where
  "drop_rings rids st =
     st\<lparr>st_fp := st_fp st +
           length [s \<leftarrow> st_suspects st. case suspect_ring_id s of None \<Rightarrow> False
                                         | Some r \<Rightarrow> r \<in> set rids],
        st_suspects := [s \<leftarrow> st_suspects st. \<not> (case suspect_ring_id s of None \<Rightarrow> False
                                                  | Some r \<Rightarrow> r \<in> set rids)],
        st_rings := [r \<leftarrow> st_rings st. ring_id r \<notin> set rids]\<rparr>"

definition sigs :: "string list" where
  "sigs = [''fan_out'', ''fan_in'', ''high_velocity'', ''shell_chain'',
           ''low_transaction_intermediary'']"

definition is_bad :: "suspect list \<Rightarrow> ring \<Rightarrow> bool" where
  "is_bad suspects r =
     (if pattern_type r \<noteq> ''cycle'' then False
      else (let mbrs = member_accounts r
            in if list_ex is_fraud mbrs then False
               else (let risk = risk_score r;
                         rpats = concat [detected_patterns s. s \<leftarrow> suspects,
                                           suspect_ring_id s = Some (ring_id r)];
                         has_sig = list_ex (\<lambda>p. p \<in> set sigs) rpats
                     in if all_legit mbrs \<and> (risk < 80 \<or> \<not> has_sig) then True
                        else if risk < 45 \<and> \<not> has_sig then True
                        else False)))"

definition vol_pats :: "string list" where
  "vol_pats = [''fan_out'', ''fan_in'', ''high_velocity'']"

definition drop_orphans :: "state \<Rightarrow> state" where
  "drop_orphans st =
     (let orph = [account_id s. s \<leftarrow> st_suspects st,
                    suspect_ring_id s = None
                    \<and> cycle_score (score_breakdown s) = 0
                    \<and> shell_score (score_breakdown s) = 0
                    \<and> suspicion_score s < 45
                    \<and> set (detected_patterns s) \<subseteq> set vol_pats]
      in st\<lparr>st_fp := st_fp st + length orph,
            st_suspects := [s \<leftarrow> st_suspects st. account_id s \<notin> set orph]\<rparr>)"

text \<open>
  The whitelist sweep, lines 599 to 604 of the source. The rings are filtered first;
  the loop that clears the mastermind field runs on what is left.
\<close>

definition whitelist_sweep :: "string list \<Rightarrow> state \<Rightarrow> state" where
  "whitelist_sweep wl st =
     (let fp' = st_fp st + length [s \<leftarrow> st_suspects st. account_id s \<in> set wl];
          suspects' = [s \<leftarrow> st_suspects st. account_id s \<notin> set wl];
          rings' = [r \<leftarrow> st_rings st. case mastermind_account r of None \<Rightarrow> True
                                       | Some m \<Rightarrow> m \<notin> set wl];
          rings'' = map (\<lambda>r. case mastermind_account r of
                               None \<Rightarrow> r
                             | Some m \<Rightarrow> if m \<in> set wl then r\<lparr>mastermind_account := None\<rparr>
                                         else r) rings'
      in st\<lparr>st_fp := fp', st_suspects := suspects', st_rings := rings''\<rparr>)"

definition post_filter :: "string list \<Rightarrow> state \<Rightarrow> state" where
  "post_filter wl st =
     (let st = drop_rings [ring_id r. r \<leftarrow> st_rings st, 100 < length (member_accounts r)] st;
          st = drop_rings [ring_id r. r \<leftarrow> st_rings st, total_amount r < MIN_CYCLE_AMOUNT] st;
          st = drop_rings [ring_id r. r \<leftarrow> st_rings st,
                             pattern_type r = ''smurfing''
                             \<and> 20 < length (member_accounts r)
                             \<and> 1000000 < total_amount r] st;
          st = drop_rings [ring_id r. r \<leftarrow> st_rings st, is_bad (st_suspects st) r] st;
          st = drop_orphans st;
          st = whitelist_sweep wl st
      in st\<lparr>st_suspects := sorted_desc suspicion_score (st_suspects st)\<rparr>)"

text \<open>The ring assembly: cycle rings, then smurfing rings, then shell rings.\<close>

definition assemble :: "(string \<Rightarrow> nat) \<Rightarrow> string list \<Rightarrow> graph \<Rightarrow> txn list \<Rightarrow> cycle_data \<Rightarrow> (string \<times> string list) list \<Rightarrow> (string \<times> nat) list \<Rightarrow> (string \<times> string \<times> rat) list \<Rightarrow> suspect list \<Rightarrow> state" where
  "assemble hsh wl G df cd smurf_map shell_map mm_data suspects =
     (let st0 = \<lparr>st_suspects = suspects,
                 st_rings = map (cycle_ring df suspects mm_data) (rings cd),
                 st_ring_map = ring_map cd, st_fp = 0\<rparr>;
          sc1 = fold (smurf_step hsh wl G df) smurf_map (st0, length (rings cd) + 1);
          sc2 = fst (fold (shell_ring_step hsh G df shell_map) (map fst shell_map) (sc1, []))
      in fst sc2)"

definition all_ids_of :: "cycle_data \<Rightarrow> (string \<times> string list) list \<Rightarrow> (string \<times> nat) list \<Rightarrow> string list" where
  "all_ids_of cd smurf_map shell_map =
     uniq (map fst (ring_map cd) @ map fst smurf_map @ map fst shell_map)"

definition run_clean :: "(string \<Rightarrow> nat) \<Rightarrow> txn list \<Rightarrow> analysis_result option" where
  "run_clean hsh df =
     (let G = build_graph df;
          (wl, smurf_map) = detect_smurfing G df
      in case detect_cycles hsh wl G of
           None \<Rightarrow> None
         | Some cd \<Rightarrow>
             (let shell_map = detect_shell_chains hsh wl G df (cycle_members cd);
                  mm_data = detect_mastermind hsh G (rings cd);
                  all_ids = all_ids_of cd smurf_map shell_map;
                  p = make_pre G df all_ids;
                  suspects = List.map_filter
                               (suspect_of G df cd smurf_map shell_map p mm_data)
                               (set_iter hsh all_ids);
                  st = post_filter wl
                         (assemble hsh wl G df cd smurf_map shell_map mm_data suspects)
              in Some \<lparr>suspicious_accounts = st_suspects st,
                       fraud_rings = st_rings st,
                       summary = \<lparr>total_accounts_analyzed = number_of_nodes G,
                                  suspicious_accounts_flagged = length (st_suspects st),
                                  fraud_rings_detected = length (st_rings st),
                                  mastermind_accounts_identified =
                                    length [s \<leftarrow> st_suspects st. is_mastermind s],
                                  false_positives_filtered = st_fp st\<rparr>\<rparr>))"

definition run :: "(string \<Rightarrow> nat) \<Rightarrow> df_row list \<Rightarrow> analysis_result option" where
  "run hsh df = run_clean hsh (clean df)"

section \<open>Concrete scenarios\<close>

text \<open>Two interpreters: one visits a set of strings in ascending order, the other by the
  last character, descending.\<close>

definition hash_flat :: "string \<Rightarrow> nat" where
  "hash_flat s = 0"

definition hash_last :: "string \<Rightarrow> nat" where
  "hash_last s = (case rev s of [] \<Rightarrow> 0 | c # _ \<Rightarrow> 255 - of_char c)"

definition tx :: "string \<Rightarrow> string \<Rightarrow> string \<Rightarrow> rat \<Rightarrow> int \<Rightarrow> df_row" where
  "tx i s r a t =
     \<lparr>transaction_id = i, sender_id = s, receiver_id = r, amount = a, timestamp = Some t\<rparr>"

text \<open>A triangle of fraud-prefixed accounts; the last edge carries two transfers.\<close>

definition triangle_df :: "df_row list" where
  "triangle_df =
     [tx ''T4'' ''CYC3_X'' ''CYC3_Y'' 3000 0, tx ''T5'' ''CYC3_Y'' ''CYC3_Z'' 3000 10,
      tx ''T6'' ''CYC3_Z'' ''CYC3_X'' 3000 20, tx ''T7'' ''CYC3_Z'' ''CYC3_X'' 3000 30]"

definition triangle_graph :: graph where
  "triangle_graph =
     \<lparr>nodes = [''CYC3_X'', ''CYC3_Y'', ''CYC3_Z''],
      edges = [(''CYC3_X'', ''CYC3_Y'', 3000), (''CYC3_Y'', ''CYC3_Z'', 3000),
               (''CYC3_Z'', ''CYC3_X'', 6000)]\<rparr>"

definition triangle_cycle :: "string list" where
  "triangle_cycle = [''CYC3_X'', ''CYC3_Y'', ''CYC3_Z'']"

text \<open>A table whose only row is a self-transfer with a valid amount and timestamp.\<close>

definition self_transfer_csv :: "csv_row list" where
  "self_transfer_csv =
     [\<lparr>transaction_id = ''T1'', sender_id = ''A'', receiver_id = ''A'',
       amount = Some 10, timestamp = Some 0\<rparr>]"


definition empty_result :: analysis_result where
  "empty_result =
     \<lparr>suspicious_accounts = [], fraud_rings = [],
      summary = \<lparr>total_accounts_analyzed = 0, suspicious_accounts_flagged = 0,
                 fraud_rings_detected = 0, mastermind_accounts_identified = 0,
                 false_positives_filtered = 0\<rparr>\<rparr>"

text \<open>A table that cleaning empties: a self-transfer and a row whose timestamp is NaT.\<close>

definition dropped_df :: "df_row list" where
  "dropped_df =
     [tx ''T1'' ''A'' ''A'' 10 0,
      \<lparr>transaction_id = ''T2'', sender_id = ''A'', receiver_id = ''B'',
       amount = 10, timestamp = None\<rparr>]"

text \<open>Reading a decimal numeral back, to tell ring labels apart.\<close>

definition undec :: "string \<Rightarrow> nat" where
  "undec s = foldl (\<lambda>a c. 10 * a + (of_char c - 48)) 0 s"

text \<open>
  Two notions for the invariants of \<open>run\<close>: a list of suspects that comes from \<open>base\<close>
  by changing ring labels only, and a list of rings whose labels are
  \<open>ring_label k\<close> for increasing \<open>k \<ge> 1\<close>.
\<close>

definition relabelled :: "suspect list \<Rightarrow> suspect list \<Rightarrow> bool" where
  "relabelled base xs \<longleftrightarrow>
     (\<forall>s \<in> set xs. \<exists>s0 \<in> set base. \<exists>r. s = s0\<lparr>suspect_ring_id := r\<rparr>)"

definition label_seq :: "ring list \<Rightarrow> bool" where
  "label_seq rs \<longleftrightarrow>
     (\<exists>ks. map ring_id rs = map ring_label ks \<and> sorted_wrt (<) ks \<and> (\<forall>k \<in> set ks. 1 \<le> k))"

text \<open>A pattern map whose tags all lie in \<open>A\<close>.\<close>

definition patterns_within :: "string set \<Rightarrow> (string \<times> string list) list \<Rightarrow> bool" where
  "patterns_within A m \<longleftrightarrow> (\<forall>(k, ps) \<in> set m. set ps \<subseteq> A)"

text \<open>The stages of \<open>run\<close> on the triangle, for both interpreters.\<close>

definition cyc_suspect :: "string \<Rightarrow> string \<Rightarrow> suspect" where
  "cyc_suspect a rid =
     \<lparr>account_id = a, suspicion_score = 125 / 2, detected_patterns = [''cycle_length_3''],
      suspect_ring_id = Some rid, is_mastermind = False, mastermind_score = None,
      score_breakdown = \<lparr>cycle_score = 40, velocity_score = 5 / 2, fan_score = 20,
                          shell_score = 0\<rparr>\<rparr>"

definition cyc_ring :: "string \<Rightarrow> string list \<Rightarrow> nat \<Rightarrow> rat \<Rightarrow> ring" where
  "cyc_ring rid mbrs n amt =
     \<lparr>ring_id = rid, member_accounts = mbrs, pattern_type = ''cycle'', risk_score = 125 / 2,
      mastermind_account = None, transaction_count = n, total_amount = amt\<rparr>"

definition triangle_txns :: "txn list" where
  "triangle_txns =
     [\<lparr>transaction_id = ''T4'', sender_id = ''CYC3_X'', receiver_id = ''CYC3_Y'',
       amount = 3000, timestamp = 0\<rparr>,
      \<lparr>transaction_id = ''T5'', sender_id = ''CYC3_Y'', receiver_id = ''CYC3_Z'',
       amount = 3000, timestamp = 10\<rparr>,
      \<lparr>transaction_id = ''T6'', sender_id = ''CYC3_Z'', receiver_id = ''CYC3_X'',
       amount = 3000, timestamp = 20\<rparr>,
      \<lparr>transaction_id = ''T7'', sender_id = ''CYC3_Z'', receiver_id = ''CYC3_X'',
       amount = 3000, timestamp = 30\<rparr>]"

definition triangle_cd :: cycle_data where
  "triangle_cd =
     \<lparr>ring_map = [(''CYC3_X'', ''RING_001''), (''CYC3_Y'', ''RING_001''),
                  (''CYC3_Z'', ''RING_001'')],
      rings = [(''RING_001'', [''CYC3_X'', ''CYC3_Y'', ''CYC3_Z''])],
      raw_cycles_of = [[''CYC3_X'', ''CYC3_Y'', ''CYC3_Z'']],
      cycle_members = [''CYC3_X'', ''CYC3_Y'', ''CYC3_Z'']\<rparr>"

definition triangle_cd_last :: cycle_data where
  "triangle_cd_last =
     \<lparr>ring_map = [(''CYC3_Z'', ''RING_001''), (''CYC3_Y'', ''RING_001''),
                  (''CYC3_X'', ''RING_001'')],
      rings = [(''RING_001'', [''CYC3_Z'', ''CYC3_Y'', ''CYC3_X''])],
      raw_cycles_of = [[''CYC3_X'', ''CYC3_Y'', ''CYC3_Z'']],
      cycle_members = [''CYC3_X'', ''CYC3_Y'', ''CYC3_Z'']\<rparr>"

definition triangle_pre :: pre where
  "triangle_pre =
     \<lparr>in_degrees = [(''CYC3_X'', 1), (''CYC3_Y'', 1), (''CYC3_Z'', 1)],
      out_degrees = [(''CYC3_X'', 1), (''CYC3_Y'', 1), (''CYC3_Z'', 1)],
      total_nodes = 3,
      velocity_counts = [(''CYC3_X'', 1), (''CYC3_Y'', 1), (''CYC3_Z'', 1)]\<rparr>"

definition triangle_suspects :: "suspect list" where
  "triangle_suspects =
     [cyc_suspect ''CYC3_X'' ''RING_001'', cyc_suspect ''CYC3_Y'' ''RING_001'',
      cyc_suspect ''CYC3_Z'' ''RING_001'']"

definition triangle_state :: state where
  "triangle_state =
     \<lparr>st_suspects = triangle_suspects,
      st_rings = [cyc_ring ''RING_001'' [''CYC3_X'', ''CYC3_Y'', ''CYC3_Z''] 4 12000],
      st_ring_map = [(''CYC3_X'', ''RING_001''), (''CYC3_Y'', ''RING_001''),
                     (''CYC3_Z'', ''RING_001'')],
      st_fp = 0\<rparr>"

definition triangle_state_last :: state where
  "triangle_state_last =
     \<lparr>st_suspects = rev triangle_suspects,
      st_rings = [cyc_ring ''RING_001'' [''CYC3_X'', ''CYC3_Y'', ''CYC3_Z''] 4 12000],
      st_ring_map = [(''CYC3_Z'', ''RING_001''), (''CYC3_Y'', ''RING_001''),
                     (''CYC3_X'', ''RING_001'')],
      st_fp = 0\<rparr>"

definition triangle_summary :: summary where
  "triangle_summary =
     \<lparr>total_accounts_analyzed = 3, suspicious_accounts_flagged = 3,
      fraud_rings_detected = 1, mastermind_accounts_identified = 0,
      false_positives_filtered = 0\<rparr>"

definition triangle_result :: analysis_result where
  "triangle_result =
     \<lparr>suspicious_accounts = triangle_suspects,
      fraud_rings = [cyc_ring ''RING_001'' [''CYC3_X'', ''CYC3_Y'', ''CYC3_Z''] 4 12000],
      summary = triangle_summary\<rparr>"

definition triangle_result_last :: analysis_result where
  "triangle_result_last =
     \<lparr>suspicious_accounts = rev triangle_suspects,
      fraud_rings = [cyc_ring ''RING_001'' [''CYC3_X'', ''CYC3_Y'', ''CYC3_Z''] 4 12000],
      summary = triangle_summary\<rparr>"

text \<open>The rings assembled so far carry the labels 1 up to the counter, excluded.\<close>

definition labels_upto :: "state \<times> nat \<Rightarrow> bool" where
  "labels_upto sc \<longleftrightarrow>
     map ring_id (st_rings (fst sc)) = map ring_label [1 ..< snd sc] \<and> 1 \<le> snd sc"

text \<open>
  Two triangles of fraud-prefixed accounts. The first moves 3000 in all, enough for the
  cycle gate (2500) but not for the post-filter (5000); the second moves 9000.
\<close>

definition two_rings_df :: "df_row list" where
  "two_rings_df =
     [tx ''T1'' ''CYC3_A'' ''CYC3_B'' 1000 0, tx ''T2'' ''CYC3_B'' ''CYC3_C'' 1000 10,
      tx ''T3'' ''CYC3_C'' ''CYC3_A'' 1000 20, tx ''T4'' ''CYC3_X'' ''CYC3_Y'' 3000 0,
      tx ''T5'' ''CYC3_Y'' ''CYC3_Z'' 3000 10, tx ''T6'' ''CYC3_Z'' ''CYC3_X'' 3000 20]"

definition txn_of :: "string \<Rightarrow> string \<Rightarrow> string \<Rightarrow> rat \<Rightarrow> int \<Rightarrow> txn" where
  "txn_of i s r a t =
     \<lparr>transaction_id = i, sender_id = s, receiver_id = r, amount = a, timestamp = t\<rparr>"

definition two_rings_txns :: "txn list" where
  "two_rings_txns =
     [txn_of ''T1'' ''CYC3_A'' ''CYC3_B'' 1000 0, txn_of ''T2'' ''CYC3_B'' ''CYC3_C'' 1000 10,
      txn_of ''T3'' ''CYC3_C'' ''CYC3_A'' 1000 20, txn_of ''T4'' ''CYC3_X'' ''CYC3_Y'' 3000 0,
      txn_of ''T5'' ''CYC3_Y'' ''CYC3_Z'' 3000 10, txn_of ''T6'' ''CYC3_Z'' ''CYC3_X'' 3000 20]"

definition two_rings_graph :: graph where
  "two_rings_graph =
     \<lparr>nodes = [''CYC3_A'', ''CYC3_B'', ''CYC3_C'', ''CYC3_X'', ''CYC3_Y'', ''CYC3_Z''],
      edges = [(''CYC3_A'', ''CYC3_B'', 1000), (''CYC3_B'', ''CYC3_C'', 1000),
               (''CYC3_C'', ''CYC3_A'', 1000), (''CYC3_X'', ''CYC3_Y'', 3000),
               (''CYC3_Y'', ''CYC3_Z'', 3000), (''CYC3_Z'', ''CYC3_X'', 3000)]\<rparr>"

definition two_rings_ids :: "string list" where
  "two_rings_ids = [''CYC3_A'', ''CYC3_B'', ''CYC3_C'', ''CYC3_X'', ''CYC3_Y'', ''CYC3_Z'']"

definition two_rings_ring_map :: "(string \<times> string) list" where
  "two_rings_ring_map =
     [(''CYC3_A'', ''RING_001''), (''CYC3_B'', ''RING_001''), (''CYC3_C'', ''RING_001''),
      (''CYC3_X'', ''RING_002''), (''CYC3_Y'', ''RING_002''), (''CYC3_Z'', ''RING_002'')]"

definition two_rings_cd :: cycle_data where
  "two_rings_cd =
     \<lparr>ring_map = two_rings_ring_map,
      rings = [(''RING_001'', [''CYC3_A'', ''CYC3_B'', ''CYC3_C'']),
               (''RING_002'', [''CYC3_X'', ''CYC3_Y'', ''CYC3_Z''])],
      raw_cycles_of = [[''CYC3_A'', ''CYC3_B'', ''CYC3_C''], [''CYC3_X'', ''CYC3_Y'', ''CYC3_Z'']],
      cycle_members = two_rings_ids\<rparr>"

definition two_rings_pre :: pre where
  "two_rings_pre =
     \<lparr>in_degrees = map (\<lambda>n. (n, 1)) two_rings_ids,
      out_degrees = map (\<lambda>n. (n, 1)) two_rings_ids,
      total_nodes = 6,
      velocity_counts = map (\<lambda>n. (n, 1)) two_rings_ids\<rparr>"

definition two_rings_suspects :: "suspect list" where
  "two_rings_suspects =
     [cyc_suspect ''CYC3_A'' ''RING_001'', cyc_suspect ''CYC3_B'' ''RING_001'',
      cyc_suspect ''CYC3_C'' ''RING_001'', cyc_suspect ''CYC3_X'' ''RING_002'',
      cyc_suspect ''CYC3_Y'' ''RING_002'', cyc_suspect ''CYC3_Z'' ''RING_002'']"

definition two_rings_state :: state where
  "two_rings_state =
     \<lparr>st_suspects = two_rings_suspects,
      st_rings = [cyc_ring ''RING_001'' [''CYC3_A'', ''CYC3_B'', ''CYC3_C''] 3 3000,
                  cyc_ring ''RING_002'' [''CYC3_X'', ''CYC3_Y'', ''CYC3_Z''] 3 9000],
      st_ring_map = two_rings_ring_map, st_fp = 0\<rparr>"

definition two_rings_final :: state where
  "two_rings_final =
     \<lparr>st_suspects = [cyc_suspect ''CYC3_X'' ''RING_002'', cyc_suspect ''CYC3_Y'' ''RING_002'',
                     cyc_suspect ''CYC3_Z'' ''RING_002''],
      st_rings = [cyc_ring ''RING_002'' [''CYC3_X'', ''CYC3_Y'', ''CYC3_Z''] 3 9000],
      st_ring_map = two_rings_ring_map, st_fp = 3\<rparr>"

definition two_rings_result :: analysis_result where
  "two_rings_result =
     \<lparr>suspicious_accounts = st_suspects two_rings_final,
      fraud_rings = st_rings two_rings_final,
      summary = \<lparr>total_accounts_analyzed = 6, suspicious_accounts_flagged = 3,
                 fraud_rings_detected = 1, mastermind_accounts_identified = 0,
                 false_positives_filtered = 3\<rparr>\<rparr>"

text \<open>Two triangles that share the account \<open>CYC3_H\<close>, as one ring.\<close>

definition bowtie_graph :: graph where
  "bowtie_graph =
     \<lparr>nodes = [''CYC3_A'', ''CYC3_B'', ''CYC3_H'', ''CYC3_C'', ''CYC3_D''],
      edges = [(''CYC3_A'', ''CYC3_B'', 3000), (''CYC3_B'', ''CYC3_H'', 3000),
               (''CYC3_C'', ''CYC3_D'', 3000), (''CYC3_D'', ''CYC3_H'', 3000),
               (''CYC3_H'', ''CYC3_A'', 3000), (''CYC3_H'', ''CYC3_C'', 3000)]\<rparr>"

definition bowtie_members :: "string list" where
  "bowtie_members = [''CYC3_A'', ''CYC3_B'', ''CYC3_C'', ''CYC3_D'', ''CYC3_H'']"

section \<open>Cycle detection: the amount gate\<close>





section \<open>Ingest: what \<open>parse_csv\<close> drops\<close>

text \<open>
  C6, as stated, fails: \<open>parse_csv\<close> keeps a self-transfer whose amount and timestamp
  parse. The table below comes back with its self-transfer row.
\<close>

theorem parse_csv_keeps_self_transfer:
  "parse_csv REQUIRED_COLUMNS self_transfer_csv = Inr [tx ''T1'' ''A'' ''A'' 10 0]"
  by code_simp

lemma clean_no_self: "\<forall>r \<in> set (clean df). sender_id r \<noteq> receiver_id r"
  by (auto simp: clean_def split: option.splits)

lemma parse_csv_Inr:
  assumes "parse_csv columns rows = Inr df"
  shows "df = [\<lparr>transaction_id = transaction_id r, sender_id = sender_id r,
                    receiver_id = receiver_id r, amount = a, timestamp = Some t\<rparr>.
                   r \<leftarrow> rows, a \<leftarrow> (case amount r of None \<Rightarrow> [] | Some a \<Rightarrow> [a]),
                   t \<leftarrow> (case timestamp r of None \<Rightarrow> [] | Some t \<Rightarrow> [t])]"
  using assms by (simp add: parse_csv_def Let_def split: if_splits)

text \<open>
  C6, amended. When \<open>parse_csv\<close> returns a table, its rows are exactly the input rows
  whose amount coerces to a number and whose timestamp parses, self-transfers among
  them; the self-transfers are dropped later, by the cleaning at the head of \<open>run\<close>.
\<close>

theorem parse_csv_rows:
  assumes "parse_csv columns rows = Inr df"
  shows "(\<forall>x. x \<in> set df \<longleftrightarrow>
            (\<exists>r a t. r \<in> set rows \<and> amount r = Some a \<and> timestamp r = Some t
               \<and> x = \<lparr>transaction_id = transaction_id r, sender_id = sender_id r,
                       receiver_id = receiver_id r, amount = a, timestamp = Some t\<rparr>))
         \<and> (\<forall>r \<in> set (clean df). sender_id r \<noteq> receiver_id r)"
proof (intro conjI allI iffI)
  fix x assume "x \<in> set df"
  then obtain r where r: "r \<in> set rows"
    and x: "x \<in> set (concat (map (\<lambda>a. map (\<lambda>t.
                \<lparr>transaction_id = transaction_id r, sender_id = sender_id r,
                 receiver_id = receiver_id r, amount = a, timestamp = Some t\<rparr>)
                (case timestamp r of None \<Rightarrow> [] | Some t \<Rightarrow> [t]))
              (case amount r of None \<Rightarrow> [] | Some a \<Rightarrow> [a])))"
    unfolding parse_csv_Inr [OF assms] by auto
  from x obtain a t where "amount r = Some a" "timestamp r = Some t"
    "x = \<lparr>transaction_id = transaction_id r, sender_id = sender_id r,
          receiver_id = receiver_id r, amount = a, timestamp = Some t\<rparr>"
    by (cases "amount r"; cases "timestamp r") auto
  with r show "\<exists>r a t. r \<in> set rows \<and> amount r = Some a \<and> timestamp r = Some t
               \<and> x = \<lparr>transaction_id = transaction_id r, sender_id = sender_id r,
                       receiver_id = receiver_id r, amount = a, timestamp = Some t\<rparr>"
    by blast
next
  fix x assume "\<exists>r a t. r \<in> set rows \<and> amount r = Some a \<and> timestamp r = Some t
               \<and> x = \<lparr>transaction_id = transaction_id r, sender_id = sender_id r,
                       receiver_id = receiver_id r, amount = a, timestamp = Some t\<rparr>"
  then obtain r a t where "r \<in> set rows" "amount r = Some a" "timestamp r = Some t"
    "x = \<lparr>transaction_id = transaction_id r, sender_id = sender_id r,
           receiver_id = receiver_id r, amount = a, timestamp = Some t\<rparr>"
    by blast
  then show "x \<in> set df"
    unfolding parse_csv_Inr [OF assms] by force
next
  show "\<forall>r \<in> set (clean df). sender_id r \<noteq> receiver_id r"
    by (rule clean_no_self)
qed

theorem parse_csv_rows_witness:
  "parse_csv REQUIRED_COLUMNS self_transfer_csv = Inr [tx ''T1'' ''A'' ''A'' 10 0]
   \<and> tx ''T1'' ''A'' ''A'' 10 0 \<in> set [tx ''T1'' ''A'' ''A'' 10 0]
   \<and> clean [tx ''T1'' ''A'' ''A'' 10 0] = []"
proof -
  have h: "parse_csv REQUIRED_COLUMNS self_transfer_csv = Inr [tx ''T1'' ''A'' ''A'' 10 0]"
    by code_simp
  have c: "clean [tx ''T1'' ''A'' ''A'' 10 0] = []"
    by code_simp
  show ?thesis using parse_csv_rows [OF h] h c by simp
qed

section \<open>Post-filter: the whitelist sweep\<close>


section \<open>Empty input\<close>

lemma set_iter_Nil [simp]: "set_iter hsh [] = []"
  by (simp add: set_iter_def)

lemma uniq_Nil [simp]: "uniq [] = []"
  by (simp add: uniq_def)

lemma build_graph_Nil: "build_graph [] = \<lparr>nodes = [], edges = []\<rparr>"
  by (simp add: build_graph_def)

lemma detect_smurfing_Nil: "detect_smurfing G [] = ([], [])"
  by (simp add: detect_smurfing_def merchant_whitelist_def)

lemma detect_cycles_Nil:
  "detect_cycles hsh wl \<lparr>nodes = [], edges = []\<rparr> =
     Some \<lparr>ring_map = [], rings = [], raw_cycles_of = [], cycle_members = []\<rparr>"
  by (simp add: detect_cycles_def search_nodes_def subgraph_def
      strongly_connected_components_def simple_cycles_def label_groups_def)

lemma detect_shell_chains_Nil: "detect_shell_chains hsh wl G [] cm = []"
  by (simp add: detect_shell_chains_def potential_shells_def)

lemma detect_mastermind_Nil: "detect_mastermind hsh G [] = []"
  by (simp add: detect_mastermind_def)

lemma assemble_Nil:
  "assemble hsh wl G [] \<lparr>ring_map = [], rings = [], raw_cycles_of = [], cycle_members = []\<rparr>
     [] [] [] [] = \<lparr>st_suspects = [], st_rings = [], st_ring_map = [], st_fp = 0\<rparr>"
  by (simp add: assemble_def)

lemma post_filter_Nil:
  "post_filter wl \<lparr>st_suspects = [], st_rings = [], st_ring_map = [], st_fp = 0\<rparr> =
     \<lparr>st_suspects = [], st_rings = [], st_ring_map = [], st_fp = 0\<rparr>"
  by (simp add: post_filter_def drop_rings_def drop_orphans_def whitelist_sweep_def
      sorted_desc_def)

lemma run_clean_Nil: "run_clean hsh [] = Some empty_result"
  by (simp add: run_clean_def build_graph_Nil detect_smurfing_Nil detect_cycles_Nil
      detect_shell_chains_Nil detect_mastermind_Nil assemble_Nil post_filter_Nil
      all_ids_of_def List.map_filter_simps number_of_nodes_def empty_result_def)

text \<open>
  C8. When the table is empty, or cleaning drops every row, \<open>run\<close> returns a result
  (no exception, no divergence), with no suspect, no ring and a summary of zeros,
  whatever the iteration order of the interpreter.
\<close>

theorem run_empty_batch:
  assumes "clean df = []"
  shows "run hsh df = Some empty_result"
  using assms by (simp add: run_def run_clean_Nil)

theorem run_empty_batch_witness:
  "clean dropped_df = [] \<and> run hash_flat dropped_df = Some empty_result
   \<and> run hash_flat [] = Some empty_result
   \<and> suspicious_accounts empty_result = [] \<and> fraud_rings empty_result = []
   \<and> false_positives_filtered (summary empty_result) = 0"
proof -
  have h: "clean dropped_df = []"
    by code_simp
  have e: "clean [] = []"
    by (simp add: clean_def)
  show ?thesis
    using run_empty_batch [OF h, of hash_flat] run_empty_batch [OF e, of hash_flat] h
    by (simp add: empty_result_def)
qed

section \<open>Rounding\<close>

lemma round_half_even_floor:
  "\<lfloor>x\<rfloor> \<le> round_half_even x \<and> round_half_even x \<le> \<lfloor>x\<rfloor> + 1"
  by (simp add: round_half_even_def Let_def)

lemma round_half_even_err: "\<bar>of_int (round_half_even x) - x\<bar> \<le> 1 / 2"
proof -
  define f where "f = \<lfloor>x\<rfloor>"
  define d where "d = x - of_int f"
  have d: "0 \<le> d" "d < 1" unfolding d_def f_def by linarith+
  have x: "x = of_int f + d" by (simp add: d_def)
  have r: "round_half_even x =
             (if d < 1 / 2 then f else if 1 / 2 < d then f + 1
              else if even f then f else f + 1)"
    by (simp add: round_half_even_def Let_def d_def f_def)
  have "\<bar>of_int (if d < 1 / 2 then f else if 1 / 2 < d then f + 1
              else if even f then f else f + 1) - (of_int f + d)\<bar> \<le> 1 / 2"
    using d by (auto simp: abs_if)
  moreover have "of_int (round_half_even x) - x =
      of_int (if d < 1 / 2 then f else if 1 / 2 < d then f + 1
              else if even f then f else f + 1) - (of_int f + d)"
    by (simp only: r x [symmetric])
  ultimately show ?thesis by (simp only:)
qed

lemma round_half_even_of_int [simp]: "round_half_even (of_int k) = k"
  by (simp add: round_half_even_def)

lemma round_half_even_le:
  assumes "x \<le> of_int k" shows "round_half_even x \<le> k"
proof (cases "x = of_int k")
  case True then show ?thesis by simp
next
  case False
  with assms have "x < of_int k" by simp
  then have "\<lfloor>x\<rfloor> < k" by (simp add: floor_less_iff)
  with round_half_even_floor [of x] show ?thesis by linarith
qed

lemma round_half_even_ge:
  assumes "of_int k \<le> x" shows "k \<le> round_half_even x"
proof -
  have "k \<le> \<lfloor>x\<rfloor>" using assms by (simp add: le_floor_iff)
  with round_half_even_floor [of x] show ?thesis by linarith
qed

lemma py_round_err: "\<bar>py_round x n - x\<bar> \<le> 1 / (2 * 10 ^ n)"
proof -
  have p: "(0::rat) < 10 ^ n" by simp
  have "py_round x n - x = (of_int (round_half_even (x * 10 ^ n)) - x * 10 ^ n) / 10 ^ n"
    by (simp add: py_round_def diff_divide_distrib)
  then have "\<bar>py_round x n - x\<bar> = \<bar>of_int (round_half_even (x * 10 ^ n)) - x * 10 ^ n\<bar> / 10 ^ n"
    by (simp add: abs_divide)
  also have "\<dots> \<le> (1 / 2) / 10 ^ n"
    by (rule divide_right_mono [OF round_half_even_err [of "x * 10 ^ n"]]) simp
  finally show ?thesis by simp
qed

lemma py_round_exact:
  assumes "x * 10 ^ n = of_int k" shows "py_round x n = x"
proof -
  have "py_round x n = of_int k / 10 ^ n"
    using assms by (simp add: py_round_def)
  also have "\<dots> = x" using assms [symmetric] by simp
  finally show ?thesis .
qed

lemma py_round_le:
  assumes "x \<le> of_int k" shows "py_round x n \<le> of_int k"
proof -
  have "x * 10 ^ n \<le> of_int (k * 10 ^ n)"
    using assms by (simp add: mult_right_mono)
  then have "round_half_even (x * 10 ^ n) \<le> k * 10 ^ n"
    by (rule round_half_even_le)
  then have "(of_int (round_half_even (x * 10 ^ n)) :: rat) \<le> of_int (k * 10 ^ n)"
    by (simp only: of_int_le_iff)
  then have "of_int (round_half_even (x * 10 ^ n)) / 10 ^ n \<le> (of_int k :: rat)"
    by (simp add: pos_divide_le_eq)
  then show ?thesis by (simp add: py_round_def)
qed

lemma py_round_ge:
  assumes "of_int k \<le> x" shows "of_int k \<le> py_round x n"
proof -
  have "of_int (k * 10 ^ n) \<le> x * 10 ^ n"
    using assms by (simp add: mult_right_mono)
  then have "k * 10 ^ n \<le> round_half_even (x * 10 ^ n)"
    by (rule round_half_even_ge)
  then have "(of_int (k * 10 ^ n) :: rat) \<le> of_int (round_half_even (x * 10 ^ n))"
    by (simp only: of_int_le_iff)
  then have "(of_int k :: rat) \<le> of_int (round_half_even (x * 10 ^ n)) / 10 ^ n"
    by (simp add: pos_le_divide_eq)
  then show ?thesis by (simp add: py_round_def)
qed

lemma py_round_numeral [simp]: "py_round (numeral w) n = numeral w"
  using py_round_exact [of "numeral w" n "numeral w * 10 ^ n"] by simp

lemma py_round_zero [simp]: "py_round 0 n = 0"
  using round_half_even_of_int [of 0] by (simp add: py_round_def)

section \<open>Suspicion scoring: bounds and rounding\<close>

lemma cycle_component_cases: "cycle_component ccs \<in> {0, 30, 35, 40}"
  by (simp add: cycle_component_def)

lemma shell_component_cases: "shell_component d \<in> {0, 5, 10, 15}"
  by (simp add: shell_component_def)

lemma velocity_component_eq:
  "velocity_component vel = (if 10 \<le> vel then 25 else of_nat vel * 5 / 2)"
  by (auto simp: velocity_component_def VELOCITY_TX_THRESHOLD_def min_def)

lemma velocity_component_round: "py_round (velocity_component vel) 2 = velocity_component vel"
proof (cases "10 \<le> vel")
  case True
  then show ?thesis by (simp add: velocity_component_eq)
next
  case False
  have "(of_nat vel * 5 / 2 :: rat) * 10 ^ 2 = of_int (250 * int vel)" by simp
  then have "py_round (of_nat vel * 5 / 2) 2 = of_nat vel * 5 / 2"
    by (rule py_round_exact)
  with False show ?thesis by (simp add: velocity_component_eq)
qed

lemma velocity_component_bounds: "0 \<le> velocity_component vel \<and> velocity_component vel \<le> 25"
  by (simp add: velocity_component_eq)

lemma fan_component_bounds: "0 \<le> fan_component i out N pats \<and> fan_component i out N pats \<le> 20"
  by (auto simp: fan_component_def Let_def min_def max_def)

lemma cycle_component_round: "py_round (cycle_component ccs) 2 = cycle_component ccs"
  by (simp add: cycle_component_def)

lemma shell_component_round: "py_round (shell_component d) 2 = shell_component d"
  by (simp add: shell_component_def)

lemma css_fields:
  "cycle_score (compute_suspicion_score a G df cd sm shm p) = cycle_component (member_cycles cd a)"
  "velocity_score (compute_suspicion_score a G df cd sm shm p) =
     velocity_component (snd (snd (snd (score_inputs a G df p))))"
  "shell_score (compute_suspicion_score a G df cd sm shm p) = shell_component (get_or shm a 0)"
  "fan_score (compute_suspicion_score a G df cd sm shm p) =
     py_round (fan_component (fst (score_inputs a G df p)) (fst (snd (score_inputs a G df p)))
        (fst (snd (snd (score_inputs a G df p)))) (get_list sm a)) 2"
  "total_score (compute_suspicion_score a G df cd sm shm p) =
     min 100 (py_round (cycle_component (member_cycles cd a)
        + velocity_component (snd (snd (snd (score_inputs a G df p))))
        + fan_component (fst (score_inputs a G df p)) (fst (snd (score_inputs a G df p)))
            (fst (snd (snd (score_inputs a G df p)))) (get_list sm a)
        + shell_component (get_or shm a 0)) 2)"
  by (simp_all add: compute_suspicion_score_def Let_def split_beta cycle_component_round
      shell_component_round velocity_component_round)

lemma min_100_close:
  fixes a b :: rat
  shows "\<bar>min 100 a - min 100 b\<bar> \<le> \<bar>a - b\<bar>"
  by (auto simp: min_def abs_if)

text \<open>The properties of a score that C3 lists, but for positivity.\<close>

lemma css_props:
  fixes a G df cd sm shm p
  defines "sc \<equiv> compute_suspicion_score a G df cd sm shm p"
  shows "cycle_score sc \<le> 40" "velocity_score sc \<le> 25" "fan_score sc \<le> 20"
    "shell_score sc \<le> 15" "total_score sc \<le> 100"
    "\<bar>total_score sc - min 100 (cycle_score sc + velocity_score sc + fan_score sc + shell_score sc)\<bar> \<le> 1 / 100"
proof -
  define c where "c = cycle_component (member_cycles cd a)"
  define v where "v = velocity_component (snd (snd (snd (score_inputs a G df p))))"
  define s where "s = shell_component (get_or shm a 0)"
  define f where "f = fan_component (fst (score_inputs a G df p)) (fst (snd (score_inputs a G df p)))
        (fst (snd (snd (score_inputs a G df p)))) (get_list sm a)"
  have fields: "cycle_score sc = c" "velocity_score sc = v" "shell_score sc = s"
    "fan_score sc = py_round f 2" "total_score sc = min 100 (py_round (c + v + f + s) 2)"
    unfolding sc_def c_def v_def s_def f_def by (rule css_fields)+
  show "cycle_score sc \<le> 40"
    using cycle_component_cases [of "member_cycles cd a"] by (auto simp: fields c_def)
  show "velocity_score sc \<le> 25"
    using velocity_component_bounds by (simp add: fields v_def)
  show "shell_score sc \<le> 15"
    using shell_component_cases [of "get_or shm a 0"] by (auto simp: fields s_def)
  have "f \<le> of_int 20" using fan_component_bounds by (simp add: f_def)
  then have "py_round f 2 \<le> of_int 20" by (rule py_round_le)
  then show "fan_score sc \<le> 20" by (simp add: fields)
  show "total_score sc \<le> 100" by (simp add: fields)
  have e1: "\<bar>py_round (c + v + f + s) 2 - (c + v + f + s)\<bar> \<le> 1 / 200"
    using py_round_err [of "c + v + f + s" 2] by simp
  have e2: "\<bar>py_round f 2 - f\<bar> \<le> 1 / 200"
    using py_round_err [of f 2] by simp
  have "\<bar>py_round (c + v + f + s) 2 - (c + v + py_round f 2 + s)\<bar> \<le> 1 / 100"
    using e1 e2 by linarith
  moreover have "\<bar>min 100 (py_round (c + v + f + s) 2) - min 100 (c + v + py_round f 2 + s)\<bar>
      \<le> \<bar>py_round (c + v + f + s) 2 - (c + v + py_round f 2 + s)\<bar>"
    by (rule min_100_close)
  ultimately show "\<bar>total_score sc - min 100 (cycle_score sc + velocity_score sc + fan_score sc + shell_score sc)\<bar> \<le> 1 / 100"
    unfolding fields by linarith
qed

section \<open>Ring labels and the cycles kept\<close>

lemma undec_snoc: "undec (xs @ [c]) = 10 * undec xs + (of_char c - 48)"
  by (simp add: undec_def)

lemma undec_dec: "undec (dec n) = n"
proof (induction n rule: dec.induct)
  case (1 n)
  show ?case
  proof (cases "n < 10")
    case True
    then show ?thesis by (subst dec.simps) (simp add: undec_def)
  next
    case False
    then have "undec (dec n) = 10 * undec (dec (n div 10)) + (of_char (char_of (48 + n mod 10) :: char) - 48)"
      by (subst dec.simps) (simp add: undec_snoc)
    also have "(of_char (char_of (48 + n mod 10) :: char) :: nat) = 48 + n mod 10"
      by simp
    finally show ?thesis using 1 False by simp
  qed
qed

lemma undec_zeros: "undec (replicate k (CHR ''0'') @ s) = undec s"
proof (induction k)
  case 0
  then show ?case by simp
next
  case (Suc k)
  have "undec (CHR ''0'' # xs) = undec xs" for xs
    by (simp add: undec_def)
  then show ?case using Suc by simp
qed

lemma ring_label_inj: "ring_label i = ring_label j \<Longrightarrow> i = j"
proof -
  assume "ring_label i = ring_label j"
  then have "zfill 3 (dec i) = zfill 3 (dec j)" by (simp add: ring_label_def)
  then have "undec (zfill 3 (dec i)) = undec (zfill 3 (dec j))" by simp
  then show "i = j" by (simp add: zfill_def undec_zeros undec_dec)
qed

lemma distinct_ring_labels: "sorted_wrt (<) ks \<Longrightarrow> distinct (map ring_label ks)"
proof -
  assume "sorted_wrt (<) ks"
  then have "distinct ks" by (simp add: strict_sorted_iff)
  moreover have "inj_on ring_label (set ks)" by (meson inj_onI ring_label_inj)
  ultimately show ?thesis by (simp add: distinct_map)
qed

lemma update_new: "k \<notin> fst ` set al \<Longrightarrow> AList.update k v al = al @ [(k, v)]"
  by (induction al) auto

lemma fold_update_new:
  "distinct (map fst xs) \<Longrightarrow> fst ` set xs \<inter> fst ` set acc = {} \<Longrightarrow>
   fold (\<lambda>(k, v) rs. AList.update k v rs) xs acc = acc @ xs"
proof (induction xs arbitrary: acc)
  case Nil
  then show ?case by simp
next
  case (Cons x xs)
  obtain k v where x: "x = (k, v)" by (cases x)
  have k: "k \<notin> fst ` set acc" using Cons.prems x by auto
  have "fold (\<lambda>(k, v) rs. AList.update k v rs) (x # xs) acc =
        fold (\<lambda>(k, v) rs. AList.update k v rs) xs (acc @ [(k, v)])"
    by (simp add: x update_new [OF k])
  also have "\<dots> = (acc @ [(k, v)]) @ xs"
    using Cons.prems x by (intro Cons.IH) auto
  finally show ?case by (simp add: x)
qed

lemma label_groups_keys:
  assumes "label_groups hsh groups = Some (rs, rm)"
  shows "map fst rs = map ring_label [1 ..< Suc (length rs)]"
proof -
  define ordered where "ordered = sort_key (\<lambda>(r, mbrs). hd (sort mbrs)) groups"
  define labelled where "labelled = map (\<lambda>(idx, (r, mbrs)). (ring_label idx, mbrs))
                             (zip [1 ..< Suc (length ordered)] ordered)"
  have rs: "rs = fold (\<lambda>(rid, mbrs) rs. AList.update rid mbrs rs) labelled []"
    using assms by (simp add: label_groups_def Let_def ordered_def labelled_def split: if_splits)
  have "map fst labelled =
          map ring_label (map fst (zip [1 ..< Suc (length ordered)] ordered))"
    by (simp add: labelled_def split_beta comp_def)
  also have "map fst (zip [1 ..< Suc (length ordered)] ordered) = [1 ..< Suc (length ordered)]"
    by (rule map_fst_zip) (simp del: upt_Suc)
  finally have keys: "map fst labelled = map ring_label [1 ..< Suc (length ordered)]" .
  have "distinct (map fst labelled)"
    unfolding keys by (rule distinct_ring_labels) (simp del: upt_Suc)
  then have "rs = labelled" unfolding rs by (simp add: fold_update_new)
  moreover have "length labelled = length ordered" by (simp add: labelled_def del: upt_Suc)
  ultimately show ?thesis using keys by simp
qed

lemma detect_cycles_keys:
  assumes "detect_cycles hsh wl G = Some cd"
  shows "map fst (rings cd) = map ring_label [1 ..< Suc (length (rings cd))]"
  using assms
  by (auto simp: detect_cycles_def Let_def split: option.splits prod.splits
      dest: label_groups_keys)

lemma cycle_kept_length:
  "cycle_kept G c = Some True \<Longrightarrow> MIN_CYCLE_LENGTH \<le> length c \<and> length c \<le> MAX_CYCLE_LENGTH"
  by (auto simp: cycle_kept_def split: if_splits)

lemma raw_cycles_length:
  "raw_cycles G cs = Some raw \<Longrightarrow>
   \<forall>c \<in> set raw. MIN_CYCLE_LENGTH \<le> length c \<and> length c \<le> MAX_CYCLE_LENGTH"
proof (induction cs arbitrary: raw)
  case Nil
  then show ?case by simp
next
  case (Cons c cs)
  then show ?case
    by (auto split: option.splits if_splits dest: cycle_kept_length)
qed

lemma detect_cycles_raw:
  assumes "detect_cycles hsh wl G = Some cd"
  shows "\<forall>c \<in> set (raw_cycles_of cd). MIN_CYCLE_LENGTH \<le> length c \<and> length c \<le> MAX_CYCLE_LENGTH"
proof -
  from assms obtain cs where "raw_cycles G cs = Some (raw_cycles_of cd)"
    by (auto simp: detect_cycles_def Let_def split: option.splits prod.splits)
  then show ?thesis by (rule raw_cycles_length)
qed

section \<open>What the ring assembly and the post-filter keep of the suspects\<close>

lemma fold_invariant:
  assumes "\<And>x s. I s \<Longrightarrow> I (f x s)" and "I s"
  shows "I (fold f xs s)"
  using assms(2) by (induction xs arbitrary: s) (auto intro: assms(1))

lemma relabelled_refl: "relabelled base base"
  unfolding relabelled_def
proof
  fix s assume "s \<in> set base"
  moreover have "s = s\<lparr>suspect_ring_id := suspect_ring_id s\<rparr>" by simp
  ultimately show "\<exists>s0 \<in> set base. \<exists>r. s = s0\<lparr>suspect_ring_id := r\<rparr>" by blast
qed

lemma relabelled_subset: "relabelled base xs \<Longrightarrow> set ys \<subseteq> set xs \<Longrightarrow> relabelled base ys"
  unfolding relabelled_def by blast

lemma relabelled_map:
  assumes "relabelled base xs"
  shows "relabelled base (map (\<lambda>s. if Q s then s\<lparr>suspect_ring_id := Some rid\<rparr> else s) xs)"
  unfolding relabelled_def
proof
  fix s assume "s \<in> set (map (\<lambda>s. if Q s then s\<lparr>suspect_ring_id := Some rid\<rparr> else s) xs)"
  then obtain s1 where s1: "s1 \<in> set xs"
    and s: "s = (if Q s1 then s1\<lparr>suspect_ring_id := Some rid\<rparr> else s1)" by auto
  from assms s1 obtain s0 r where s0: "s0 \<in> set base" "s1 = s0\<lparr>suspect_ring_id := r\<rparr>"
    unfolding relabelled_def by blast
  show "\<exists>s0 \<in> set base. \<exists>r. s = s0\<lparr>suspect_ring_id := r\<rparr>"
  proof (cases "Q s1")
    case True
    then have "s = s0\<lparr>suspect_ring_id := Some rid\<rparr>" using s s0 by simp
    with s0 show ?thesis by blast
  next
    case False
    then show ?thesis using s s0 by auto
  qed
qed

lemma attach_member_suspects:
  "relabelled base (st_suspects st) \<Longrightarrow> relabelled base (st_suspects (attach_member rid m st))"
  by (simp add: attach_member_def relabelled_map)

lemma attach_member_rings: "st_rings (attach_member rid m st) = st_rings st"
  by (simp add: attach_member_def)

lemma attach_suspects:
  "relabelled base (st_suspects st) \<Longrightarrow> relabelled base (st_suspects (attach hsh rid mbrs st))"
  unfolding attach_def by (rule fold_invariant) (auto intro: attach_member_suspects)

lemma attach_rings: "st_rings (attach hsh rid mbrs st) = st_rings st"
  unfolding attach_def
  by (rule fold_invariant [where I = "\<lambda>s. st_rings s = st_rings st"])
     (simp_all add: attach_member_rings)

lemma smurf_step_suspects:
  "relabelled base (st_suspects (fst sc)) \<Longrightarrow>
   relabelled base (st_suspects (fst (smurf_step hsh wl G df e sc)))"
  by (cases e; cases sc) (auto simp: smurf_step_def Let_def intro!: attach_suspects)

lemma shell_ring_step_suspects:
  "relabelled base (st_suspects (fst (fst acc))) \<Longrightarrow>
   relabelled base (st_suspects (fst (fst (shell_ring_step hsh G df shm n acc))))"
  by (cases acc; cases "fst acc")
     (auto simp: shell_ring_step_def Let_def split: prod.splits intro!: attach_suspects)

lemma assemble_suspects:
  "relabelled suspects (st_suspects (assemble hsh wl G df cd sm shm mm suspects))"
proof -
  let ?st0 = "\<lparr>st_suspects = suspects,
                 st_rings = map (cycle_ring df suspects mm) (rings cd),
                 st_ring_map = ring_map cd, st_fp = 0\<rparr>"
  let ?sc1 = "fold (smurf_step hsh wl G df) sm (?st0, length (rings cd) + 1)"
  have "relabelled suspects (st_suspects (fst ?sc1))"
    by (rule fold_invariant [where I = "\<lambda>sc. relabelled suspects (st_suspects (fst sc))"])
       (auto intro: smurf_step_suspects relabelled_refl)
  then have "relabelled suspects (st_suspects (fst (fst
      (fold (shell_ring_step hsh G df shm) (map fst shm) (?sc1, [])))))"
    by (intro fold_invariant [where I = "\<lambda>acc. relabelled suspects (st_suspects (fst (fst acc)))"])
       (auto intro: shell_ring_step_suspects)
  then show ?thesis by (simp add: assemble_def Let_def)
qed

lemma drop_rings_suspects: "set (st_suspects (drop_rings rids st)) \<subseteq> set (st_suspects st)"
  by (auto simp: drop_rings_def)

lemma drop_orphans_suspects: "set (st_suspects (drop_orphans st)) \<subseteq> set (st_suspects st)"
  by (auto simp: drop_orphans_def Let_def)

lemma whitelist_sweep_suspects: "set (st_suspects (whitelist_sweep wl st)) \<subseteq> set (st_suspects st)"
  by (auto simp: whitelist_sweep_def Let_def)

lemma post_filter_suspects: "set (st_suspects (post_filter wl st)) \<subseteq> set (st_suspects st)"
proof -
  have "set (st_suspects (whitelist_sweep wl (drop_orphans (drop_rings r4 (drop_rings r3
          (drop_rings r2 (drop_rings r1 st))))))) \<subseteq> set (st_suspects st)" for r1 r2 r3 r4
    using whitelist_sweep_suspects drop_orphans_suspects drop_rings_suspects
    by (meson subset_trans)
  then show ?thesis
    by (simp add: post_filter_def Let_def sorted_desc_def)
qed

section \<open>The suspects of the final result\<close>

lemma run_Some:
  assumes "run hsh df = Some res"
  obtains wl sm cd st base where
    "detect_smurfing (build_graph (clean df)) (clean df) = (wl, sm)"
    "detect_cycles hsh wl (build_graph (clean df)) = Some cd"
    "base = List.map_filter
              (suspect_of (build_graph (clean df)) (clean df) cd sm
                 (detect_shell_chains hsh wl (build_graph (clean df)) (clean df) (cycle_members cd))
                 (make_pre (build_graph (clean df)) (clean df)
                    (all_ids_of cd sm (detect_shell_chains hsh wl (build_graph (clean df)) (clean df) (cycle_members cd))))
                 (detect_mastermind hsh (build_graph (clean df)) (rings cd)))
              (set_iter hsh (all_ids_of cd sm
                 (detect_shell_chains hsh wl (build_graph (clean df)) (clean df) (cycle_members cd))))"
    "st = post_filter wl (assemble hsh wl (build_graph (clean df)) (clean df) cd sm
            (detect_shell_chains hsh wl (build_graph (clean df)) (clean df) (cycle_members cd))
            (detect_mastermind hsh (build_graph (clean df)) (rings cd)) base)"
    "suspicious_accounts res = st_suspects st" "fraud_rings res = st_rings st"
    "summary res = \<lparr>total_accounts_analyzed = number_of_nodes (build_graph (clean df)),
                     suspicious_accounts_flagged = length (st_suspects st),
                     fraud_rings_detected = length (st_rings st),
                     mastermind_accounts_identified = length [s \<leftarrow> st_suspects st. is_mastermind s],
                     false_positives_filtered = st_fp st\<rparr>"
  using assms
  by (auto simp: run_def run_clean_def Let_def split: prod.splits option.splits)

lemma run_suspect_origin:
  assumes "run hsh df = Some res" and "s \<in> set (suspicious_accounts res)"
  obtains wl G cd sm shm p mm acct s0 r where
    "detect_smurfing G (clean df) = (wl, sm)"
    "detect_cycles hsh wl G = Some cd"
    "suspect_of G (clean df) cd sm shm p mm acct = Some s0"
    "s = s0\<lparr>suspect_ring_id := r\<rparr>"
proof -
  from assms(1) obtain wl sm cd st base where
    sm: "detect_smurfing (build_graph (clean df)) (clean df) = (wl, sm)"
    and cd: "detect_cycles hsh wl (build_graph (clean df)) = Some cd"
    and base: "base = List.map_filter
              (suspect_of (build_graph (clean df)) (clean df) cd sm
                 (detect_shell_chains hsh wl (build_graph (clean df)) (clean df) (cycle_members cd))
                 (make_pre (build_graph (clean df)) (clean df)
                    (all_ids_of cd sm (detect_shell_chains hsh wl (build_graph (clean df)) (clean df) (cycle_members cd))))
                 (detect_mastermind hsh (build_graph (clean df)) (rings cd)))
              (set_iter hsh (all_ids_of cd sm
                 (detect_shell_chains hsh wl (build_graph (clean df)) (clean df) (cycle_members cd))))"
    and st: "st = post_filter wl (assemble hsh wl (build_graph (clean df)) (clean df) cd sm
            (detect_shell_chains hsh wl (build_graph (clean df)) (clean df) (cycle_members cd))
            (detect_mastermind hsh (build_graph (clean df)) (rings cd)) base)"
    and res: "suspicious_accounts res = st_suspects st"
    by (rule run_Some)
  have "relabelled base (st_suspects st)"
    unfolding st by (rule relabelled_subset [OF assemble_suspects post_filter_suspects])
  with assms(2) res obtain s0 r where s0: "s0 \<in> set base" "s = s0\<lparr>suspect_ring_id := r\<rparr>"
    unfolding relabelled_def by auto
  from s0(1) obtain acct where
    "suspect_of (build_graph (clean df)) (clean df) cd sm
                 (detect_shell_chains hsh wl (build_graph (clean df)) (clean df) (cycle_members cd))
                 (make_pre (build_graph (clean df)) (clean df)
                    (all_ids_of cd sm (detect_shell_chains hsh wl (build_graph (clean df)) (clean df) (cycle_members cd))))
                 (detect_mastermind hsh (build_graph (clean df)) (rings cd)) acct = Some s0"
    unfolding base by (auto simp: List.map_filter_def)
  from sm cd this s0(2) show ?thesis by (rule that)
qed

lemma suspect_of_Some:
  assumes "suspect_of G df cd sm shm p mm acct = Some s0"
  shows "suspicion_score s0 = total_score (compute_suspicion_score acct G df cd sm shm (Some p))"
    and "0 < suspicion_score s0"
    and "score_breakdown s0 = breakdown.truncate (compute_suspicion_score acct G df cd sm shm (Some p))"
    and "detected_patterns s0 = patterns_of cd sm shm acct"
    and "account_id s0 = acct"
  using assms by (auto simp: suspect_of_def Let_def split: if_splits)

text \<open>
  C3. For every suspect of the final result: the score is positive and at most 100;
  it is within 0.01 of the sum of the four fields of \<open>score_breakdown\<close> capped at 100;
  and the fields obey the caps 40, 25, 20 and 15.
\<close>

theorem final_scores:
  assumes "run hsh df = Some res"
  shows "\<forall>s \<in> set (suspicious_accounts res).
           0 < suspicion_score s \<and> suspicion_score s \<le> 100
           \<and> \<bar>suspicion_score s
                - min 100 (cycle_score (score_breakdown s) + velocity_score (score_breakdown s)
                           + fan_score (score_breakdown s) + shell_score (score_breakdown s))\<bar>
               \<le> 1 / 100
           \<and> cycle_score (score_breakdown s) \<le> 40
           \<and> velocity_score (score_breakdown s) \<le> 25
           \<and> fan_score (score_breakdown s) \<le> 20
           \<and> shell_score (score_breakdown s) \<le> 15"
proof
  fix s assume "s \<in> set (suspicious_accounts res)"
  with assms obtain wl G cd sm shm p mm acct s0 r where
    "detect_smurfing G (clean df) = (wl, sm)" "detect_cycles hsh wl G = Some cd"
    and s0: "suspect_of G (clean df) cd sm shm p mm acct = Some s0"
    and s: "s = s0\<lparr>suspect_ring_id := r\<rparr>"
    by (rule run_suspect_origin)
  define sc where "sc = compute_suspicion_score acct G (clean df) cd sm shm (Some p)"
  have f: "suspicion_score s = total_score sc" "0 < suspicion_score s"
    "cycle_score (score_breakdown s) = cycle_score sc"
    "velocity_score (score_breakdown s) = velocity_score sc"
    "fan_score (score_breakdown s) = fan_score sc"
    "shell_score (score_breakdown s) = shell_score sc"
    using suspect_of_Some [OF s0] by (simp_all add: s sc_def breakdown.defs)
  show "0 < suspicion_score s \<and> suspicion_score s \<le> 100
           \<and> \<bar>suspicion_score s
                - min 100 (cycle_score (score_breakdown s) + velocity_score (score_breakdown s)
                           + fan_score (score_breakdown s) + shell_score (score_breakdown s))\<bar>
               \<le> 1 / 100
           \<and> cycle_score (score_breakdown s) \<le> 40
           \<and> velocity_score (score_breakdown s) \<le> 25
           \<and> fan_score (score_breakdown s) \<le> 20
           \<and> shell_score (score_breakdown s) \<le> 15"
    unfolding f(1,3-6) using f(2) [unfolded f(1)] css_props [of acct G "clean df" cd sm shm "Some p"]
    by (simp add: sc_def)
qed

section \<open>Pattern tags\<close>

lemma set_insert_new [simp]: "set (insert_new x acc) = insert x (set acc)"
  by (auto simp: insert_new_def)

lemma set_fold_insert_new [simp]: "set (fold insert_new xs acc) = set xs \<union> set acc"
  by (induction xs arbitrary: acc) auto

lemma set_uniq [simp]: "set (uniq xs) = set xs"
  by (simp add: uniq_def)

lemma set_update_cases:
  "(k', x') \<in> set (AList.update k x al) \<Longrightarrow> (k', x') \<in> set al \<or> (k' = k \<and> x' = x)"
  by (induction al) (auto split: if_splits)

lemma setdefault_append_values:
  assumes "patterns_within A m" and "v \<in> A"
  shows "patterns_within A (setdefault_append a v m)"
proof (cases "map_of m a")
  case None
  then show ?thesis using assms by (auto simp: setdefault_append_def patterns_within_def)
next
  case (Some vs)
  then have "(a, vs) \<in> set m" by (rule map_of_SomeD)
  then have "set (vs @ [v]) \<subseteq> A" using assms by (auto simp: patterns_within_def)
  then show ?thesis
    using assms(1) Some
    by (auto simp: setdefault_append_def patterns_within_def dest!: set_update_cases)
qed

lemma detect_smurfing_patterns:
  assumes "detect_smurfing G df = (wl, sm)"
  shows "patterns_within (set vol_pats) sm"
proof -
  let ?I = "patterns_within (set vol_pats)"
  have a: "?I (fan_in_step df wl' a m)" if "?I m" for wl' a m
    using that by (simp add: fan_in_step_def setdefault_append_values vol_pats_def)
  have b: "?I (fan_out_step df wl' a m)" if "?I m" for wl' a m
    using that by (simp add: fan_out_step_def setdefault_append_values vol_pats_def)
  have c: "?I (velocity_step df2 a m)" if "?I m" for df2 a m
    using that by (simp add: velocity_step_def setdefault_append_values vol_pats_def Let_def)
  have 0: "?I []" by (simp add: patterns_within_def)
  have 1: "?I (fold (fan_in_step df wl') xs [])" for wl' xs
    by (rule fold_invariant [where I = ?I]) (auto intro: a 0)
  have 2: "?I (fold (fan_out_step df wl') ys (fold (fan_in_step df wl') xs []))" for wl' xs ys
    by (rule fold_invariant [where I = ?I]) (auto intro: b 1)
  have 3: "?I (fold (velocity_step df2) zs (fold (fan_out_step df wl') ys (fold (fan_in_step df wl') xs [])))"
    for wl' xs ys zs df2
    by (rule fold_invariant [where I = ?I]) (auto intro: c 2)
  from assms have "sm = fold (velocity_step [r \<leftarrow> df. receiver_id r \<notin> set (merchant_whitelist df)])
        (sort (remdups (map receiver_id [r \<leftarrow> df. receiver_id r \<notin> set (merchant_whitelist df)])))
        (fold (fan_out_step df (merchant_whitelist df)) (sort (remdups (map sender_id df)))
          (fold (fan_in_step df (merchant_whitelist df)) (sort (remdups (map receiver_id df))) []))"
    by (auto simp: detect_smurfing_def Let_def)
  then show ?thesis using 3 by simp
qed

lemma set_fold_insert_new_image:
  "set (fold (\<lambda>x. insert_new (f x)) xs acc) = f ` set xs \<union> set acc"
  by (induction xs arbitrary: acc) auto

lemma dec_small: "dec 3 = ''3''" "dec 4 = ''4''" "dec 5 = ''5''"
  by code_simp+

lemma member_cycles_subset: "set (member_cycles cd a) \<subseteq> set (raw_cycles_of cd)"
  by (auto simp: member_cycles_def)

lemma not_cycle_tag:
  "p \<in> set vol_pats \<or> p \<in> {''shell_chain'', ''low_transaction_intermediary''} \<Longrightarrow>
   \<not> startswith p ''cycle_length_''"
  by (auto simp: vol_pats_def startswith_def)

lemma patterns_of_tags:
  assumes "\<forall>c \<in> set (raw_cycles_of cd). MIN_CYCLE_LENGTH \<le> length c \<and> length c \<le> MAX_CYCLE_LENGTH"
    and "patterns_within (set vol_pats) sm"
    and "p \<in> set (patterns_of cd sm shm acct)" and "startswith p ''cycle_length_''"
  shows "p \<in> {''cycle_length_3'', ''cycle_length_4'', ''cycle_length_5''}"
proof -
  have sm: "set (get_list sm acct) \<subseteq> set vol_pats"
  proof (cases "map_of sm acct")
    case None then show ?thesis by (simp add: get_list_def)
  next
    case (Some ps)
    then have "(acct, ps) \<in> set sm" by (rule map_of_SomeD)
    with assms(2) Some show ?thesis by (auto simp: get_list_def patterns_within_def)
  qed
  from assms(3) have "p \<in> (\<lambda>cn. ''cycle_length_'' @ dec (length cn)) ` set (member_cycles cd acct)
      \<or> p \<in> set (get_list sm acct) \<or> p \<in> {''shell_chain'', ''low_transaction_intermediary''}"
    by (auto simp: patterns_of_def Let_def set_fold_insert_new_image split: if_splits)
  with sm assms(4) not_cycle_tag [of p] obtain cn where
    cn: "cn \<in> set (member_cycles cd acct)" "p = ''cycle_length_'' @ dec (length cn)"
    by blast
  with assms(1) member_cycles_subset have "3 \<le> length cn \<and> length cn \<le> 5"
    by (auto simp: MIN_CYCLE_LENGTH_def MAX_CYCLE_LENGTH_def)
  then have "length cn = 3 \<or> length cn = 4 \<or> length cn = 5" by arith
  then show ?thesis using cn(2) by (auto simp: dec_small)
qed

section \<open>Cycle lengths\<close>

text \<open>
  C7. A cycle of fewer than 3 or more than 5 nodes is never kept: every cycle the
  detector returns in \<open>raw_cycles\<close> (from which the rings and the member cycles are
  built) has between 3 and 5 nodes, and in the final result of \<open>run\<close> every pattern
  tag that starts with \<open>cycle_length_\<close> is one of \<open>cycle_length_3\<close>,
  \<open>cycle_length_4\<close>, \<open>cycle_length_5\<close>.
\<close>

theorem cycle_lengths:
  "(cycle_kept G c = Some True \<longrightarrow> 3 \<le> length c \<and> length c \<le> 5)
   \<and> (detect_cycles hsh wl G = Some cd \<longrightarrow>
        (\<forall>c \<in> set (raw_cycles_of cd). 3 \<le> length c \<and> length c \<le> 5))
   \<and> (run hsh df = Some res \<longrightarrow>
        (\<forall>s \<in> set (suspicious_accounts res). \<forall>p \<in> set (detected_patterns s).
           startswith p ''cycle_length_'' \<longrightarrow>
           p \<in> {''cycle_length_3'', ''cycle_length_4'', ''cycle_length_5''}))"
proof (intro conjI impI ballI)
  assume "cycle_kept G c = Some True"
  then show "3 \<le> length c" "length c \<le> 5"
    using cycle_kept_length [of G c] by (simp_all add: MIN_CYCLE_LENGTH_def MAX_CYCLE_LENGTH_def)
next
  fix c assume "detect_cycles hsh wl G = Some cd" "c \<in> set (raw_cycles_of cd)"
  then show "3 \<le> length c" "length c \<le> 5"
    using detect_cycles_raw [of hsh wl G cd]
    by (simp_all add: MIN_CYCLE_LENGTH_def MAX_CYCLE_LENGTH_def)
next
  fix s p
  assume r: "run hsh df = Some res" and s: "s \<in> set (suspicious_accounts res)"
    and p: "p \<in> set (detected_patterns s)" "startswith p ''cycle_length_''"
  from r s obtain wl' G' cd' sm shm pr mm acct s0 r' where
    sm: "detect_smurfing G' (clean df) = (wl', sm)"
    and cd: "detect_cycles hsh wl' G' = Some cd'"
    and s0: "suspect_of G' (clean df) cd' sm shm pr mm acct = Some s0"
    and eq: "s = s0\<lparr>suspect_ring_id := r'\<rparr>"
    by (rule run_suspect_origin)
  have "detected_patterns s = patterns_of cd' sm shm acct"
    using suspect_of_Some(4) [OF s0] by (simp add: eq)
  with p have "p \<in> set (patterns_of cd' sm shm acct)" by simp
  then show "p \<in> {''cycle_length_3'', ''cycle_length_4'', ''cycle_length_5''}"
    using patterns_of_tags [OF detect_cycles_raw [OF cd] detect_smurfing_patterns [OF sm]] p(2)
    by blast
qed

lemma run_stages:
  assumes "clean df = dfc" "build_graph dfc = G" "detect_smurfing G dfc = (wl, sm)"
    "detect_cycles hsh wl G = Some cd"
    "detect_shell_chains hsh wl G dfc (cycle_members cd) = shm"
    "detect_mastermind hsh G (rings cd) = mm"
    "all_ids_of cd sm shm = ids" "make_pre G dfc ids = p"
    "List.map_filter (suspect_of G dfc cd sm shm p mm) (set_iter hsh ids) = sus"
    "assemble hsh wl G dfc cd sm shm mm sus = st1"
    "post_filter wl st1 = st"
  shows "run hsh df =
           Some \<lparr>suspicious_accounts = st_suspects st, fraud_rings = st_rings st,
                 summary = \<lparr>total_accounts_analyzed = number_of_nodes G,
                            suspicious_accounts_flagged = length (st_suspects st),
                            fraud_rings_detected = length (st_rings st),
                            mastermind_accounts_identified =
                              length [s \<leftarrow> st_suspects st. is_mastermind s],
                            false_positives_filtered = st_fp st\<rparr>\<rparr>"
  by (simp add: run_def run_clean_def Let_def assms)

section \<open>The triangle scenario, stage by stage\<close>

lemma triangle_clean: "clean triangle_df = triangle_txns"
  by code_simp

lemma triangle_build: "build_graph triangle_txns = triangle_graph"
  by code_simp

lemma triangle_smurf: "detect_smurfing triangle_graph triangle_txns = ([], [])"
  by code_simp

lemma triangle_cycles: "detect_cycles hash_flat [] triangle_graph = Some triangle_cd"
  by code_simp

lemma triangle_shells:
  "detect_shell_chains hash_flat [] triangle_graph triangle_txns (cycle_members triangle_cd) = []"
  by code_simp

lemma triangle_mm: "detect_mastermind hash_flat triangle_graph (rings triangle_cd) = []"
  by code_simp

lemma triangle_ids: "all_ids_of triangle_cd [] [] = [''CYC3_X'', ''CYC3_Y'', ''CYC3_Z'']"
  by code_simp

lemma triangle_make_pre:
  "make_pre triangle_graph triangle_txns [''CYC3_X'', ''CYC3_Y'', ''CYC3_Z''] = triangle_pre"
  by code_simp

lemma triangle_scored:
  "List.map_filter (suspect_of triangle_graph triangle_txns triangle_cd [] [] triangle_pre [])
     (set_iter hash_flat [''CYC3_X'', ''CYC3_Y'', ''CYC3_Z'']) = triangle_suspects"
  by code_simp

lemma triangle_assemble:
  "assemble hash_flat [] triangle_graph triangle_txns triangle_cd [] [] [] triangle_suspects
     = triangle_state"
  by code_simp

lemma triangle_post: "post_filter [] triangle_state = triangle_state"
  by code_simp

lemma triangle_run: "run hash_flat triangle_df = Some triangle_result"
proof -
  have "number_of_nodes triangle_graph = 3" by code_simp
  moreover have "length (st_suspects triangle_state) = 3" by code_simp
  moreover have "length (st_rings triangle_state) = 1" by code_simp
  moreover have "length [s \<leftarrow> st_suspects triangle_state. is_mastermind s] = 0" by code_simp
  ultimately show ?thesis
    using run_stages [OF triangle_clean triangle_build triangle_smurf triangle_cycles
        triangle_shells triangle_mm triangle_ids triangle_make_pre triangle_scored
        triangle_assemble triangle_post]
    by (simp add: triangle_result_def triangle_state_def triangle_summary_def)
qed

section \<open>The triangle scenario: the scores and the cycle lengths at work\<close>

lemma triangle_suspect_count: "length (suspicious_accounts triangle_result) = 3"
  by code_simp

theorem final_scores_witness:
  "run hash_flat triangle_df = Some triangle_result
   \<and> length (suspicious_accounts triangle_result) = 3
   \<and> list_all (\<lambda>s. 0 < suspicion_score s \<and> suspicion_score s \<le> 100
           \<and> \<bar>suspicion_score s
                - min 100 (cycle_score (score_breakdown s) + velocity_score (score_breakdown s)
                           + fan_score (score_breakdown s) + shell_score (score_breakdown s))\<bar>
               \<le> 1 / 100
           \<and> cycle_score (score_breakdown s) \<le> 40
           \<and> velocity_score (score_breakdown s) \<le> 25
           \<and> fan_score (score_breakdown s) \<le> 20
           \<and> shell_score (score_breakdown s) \<le> 15) (suspicious_accounts triangle_result)"
  using final_scores [OF triangle_run] triangle_run triangle_suspect_count
  by (simp add: list_all_iff)

lemma triangle_cycle_kept: "cycle_kept triangle_graph triangle_cycle = Some True"
  by code_simp

lemma triangle_tags:
  "list_all (\<lambda>s. detected_patterns s \<noteq> []
              \<and> list_all (\<lambda>p. startswith p ''cycle_length_'') (detected_patterns s))
     (suspicious_accounts triangle_result)"
  by code_simp

theorem cycle_lengths_witness:
  "cycle_kept triangle_graph triangle_cycle = Some True \<and> length triangle_cycle = 3
   \<and> detect_cycles hash_flat [] triangle_graph = Some triangle_cd
   \<and> raw_cycles_of triangle_cd \<noteq> []
   \<and> list_all (\<lambda>c. 3 \<le> length c \<and> length c \<le> 5) (raw_cycles_of triangle_cd)
   \<and> run hash_flat triangle_df = Some triangle_result
   \<and> length (suspicious_accounts triangle_result) = 3
   \<and> list_all (\<lambda>s. detected_patterns s \<noteq> []
         \<and> list_all (\<lambda>p. p \<in> {''cycle_length_3'', ''cycle_length_4'', ''cycle_length_5''})
              (detected_patterns s))
        (suspicious_accounts triangle_result)"
proof -
  have n: "raw_cycles_of triangle_cd \<noteq> []" "length triangle_cycle = 3"
    by (simp_all add: triangle_cd_def triangle_cycle_def)
  show ?thesis
    using cycle_lengths [of triangle_graph triangle_cycle hash_flat "[]" triangle_cd
        triangle_df triangle_result]
      triangle_cycle_kept triangle_cycles triangle_run triangle_suspect_count triangle_tags n
    by (simp add: list_all_iff)
qed

section \<open>The triangle scenario under another iteration order, and the two scoring paths\<close>

lemma triangle_cycles_last: "detect_cycles hash_last [] triangle_graph = Some triangle_cd_last"
  by code_simp

lemma triangle_shells_last:
  "detect_shell_chains hash_last [] triangle_graph triangle_txns (cycle_members triangle_cd_last) = []"
  by code_simp

lemma triangle_mm_last: "detect_mastermind hash_last triangle_graph (rings triangle_cd_last) = []"
  by code_simp

lemma triangle_ids_last: "all_ids_of triangle_cd_last [] [] = [''CYC3_Z'', ''CYC3_Y'', ''CYC3_X'']"
  by code_simp

lemma triangle_make_pre_last:
  "make_pre triangle_graph triangle_txns [''CYC3_Z'', ''CYC3_Y'', ''CYC3_X''] = triangle_pre"
  by code_simp

lemma triangle_scored_last:
  "List.map_filter (suspect_of triangle_graph triangle_txns triangle_cd_last [] [] triangle_pre [])
     (set_iter hash_last [''CYC3_Z'', ''CYC3_Y'', ''CYC3_X'']) = rev triangle_suspects"
  by code_simp

lemma triangle_assemble_last:
  "assemble hash_last [] triangle_graph triangle_txns triangle_cd_last [] [] []
     (rev triangle_suspects) = triangle_state_last"
  by code_simp

lemma triangle_post_last: "post_filter [] triangle_state_last = triangle_state_last"
  by code_simp

lemma triangle_run_last: "run hash_last triangle_df = Some triangle_result_last"
proof -
  have "number_of_nodes triangle_graph = 3" by code_simp
  moreover have "length (st_suspects triangle_state_last) = 3" by code_simp
  moreover have "length (st_rings triangle_state_last) = 1" by code_simp
  moreover have "length [s \<leftarrow> st_suspects triangle_state_last. is_mastermind s] = 0" by code_simp
  ultimately show ?thesis
    using run_stages [OF triangle_clean triangle_build triangle_smurf triangle_cycles_last
        triangle_shells_last triangle_mm_last triangle_ids_last triangle_make_pre_last
        triangle_scored_last triangle_assemble_last triangle_post_last]
    by (simp add: triangle_result_last_def triangle_state_last_def triangle_summary_def)
qed

text \<open>
  C9. The order of the suspects of equal score follows the order in which the
  interpreter visits the set \<open>all_ids\<close>: on the triangle, two interpreters return the
  three suspects in opposite orders.
\<close>

theorem run_depends_on_set_order:
  "run hash_flat triangle_df = Some triangle_result
   \<and> run hash_last triangle_df = Some triangle_result_last
   \<and> map account_id (suspicious_accounts triangle_result) = [''CYC3_X'', ''CYC3_Y'', ''CYC3_Z'']
   \<and> map account_id (suspicious_accounts triangle_result_last) = [''CYC3_Z'', ''CYC3_Y'', ''CYC3_X'']"
proof -
  have "map account_id (suspicious_accounts triangle_result) = [''CYC3_X'', ''CYC3_Y'', ''CYC3_Z'']"
    by code_simp
  moreover have "map account_id (suspicious_accounts triangle_result_last) = [''CYC3_Z'', ''CYC3_Y'', ''CYC3_X'']"
    by code_simp
  ultimately show ?thesis using triangle_run triangle_run_last by simp
qed


section \<open>Ring labels through the assembly and the post-filter\<close>

lemma cycle_ring_id: "ring_id (cycle_ring df sus mm e) = fst e"
  by (cases e) (simp add: cycle_ring_def Let_def)

lemma upt_snoc: "1 \<le> n \<Longrightarrow> [1 ..< Suc n] = [1 ..< n] @ [n]"
  by simp

lemma labels_upto_append:
  assumes "labels_upto (st, n)" and "ring_id r = ring_label n"
    and "st_rings st' = st_rings st @ [r]"
  shows "labels_upto (st', Suc n)"
  using assms by (simp add: labels_upto_def)

lemma smurf_step_labels:
  assumes "labels_upto sc"
  shows "labels_upto (smurf_step hsh wl G df e sc)"
proof -
  obtain st n where sc: "sc = (st, n)" by (cases sc)
  obtain hub pats where e: "e = (hub, pats)" by (cases e)
  show ?thesis
    using assms unfolding sc e smurf_step_def Let_def
    by (auto intro!: labels_upto_append [where st = st] simp: attach_rings)
qed

lemma shell_ring_step_labels:
  assumes "labels_upto (fst acc)"
  shows "labels_upto (fst (shell_ring_step hsh G df shm n acc))"
proof -
  obtain st k seen where acc: "acc = ((st, k), seen)" by (cases acc; cases "fst acc") auto
  show ?thesis
    using assms unfolding acc shell_ring_step_def Let_def
    by (auto intro!: labels_upto_append [where st = st] simp: attach_rings split: prod.splits)
qed

text \<open>Before the post-filter the labels are dense: \<open>RING_001\<close> up to the last one.\<close>

lemma assemble_labels:
  assumes "map fst (rings cd) = map ring_label [1 ..< Suc (length (rings cd))]"
  shows "\<exists>n. map ring_id (st_rings (assemble hsh wl G df cd sm shm mm sus)) =
               map ring_label [1 ..< n]"
proof -
  let ?st0 = "\<lparr>st_suspects = sus,
                 st_rings = map (cycle_ring df sus mm) (rings cd),
                 st_ring_map = ring_map cd, st_fp = 0\<rparr>"
  let ?sc1 = "fold (smurf_step hsh wl G df) sm (?st0, length (rings cd) + 1)"
  have "map ring_id (map (cycle_ring df sus mm) (rings cd)) = map fst (rings cd)"
    by (simp add: cycle_ring_id comp_def)
  then have 0: "labels_upto (?st0, length (rings cd) + 1)"
    using assms by (simp add: labels_upto_def del: upt_Suc)
  have 1: "labels_upto ?sc1"
  proof (rule fold_invariant [where I = labels_upto])
    show "labels_upto (smurf_step hsh wl G df x s)" if "labels_upto s" for x s
      using that by (rule smurf_step_labels)
    show "labels_upto (?st0, length (rings cd) + 1)" by (rule 0)
  qed
  have "labels_upto (fst (fold (shell_ring_step hsh G df shm) (map fst shm) (?sc1, [])))"
  proof (rule fold_invariant [where I = "\<lambda>acc. labels_upto (fst acc)"])
    show "labels_upto (fst (shell_ring_step hsh G df shm x s))" if "labels_upto (fst s)" for x s
      using that by (rule shell_ring_step_labels)
    show "labels_upto (fst (?sc1, []))" using 1 by simp
  qed
  then show ?thesis unfolding assemble_def Let_def labels_upto_def by blast
qed

lemma label_seq_upt: "map ring_id rs = map ring_label [1 ..< n] \<Longrightarrow> label_seq rs"
  unfolding label_seq_def by (rule exI [of _ "[1 ..< n]"]) auto

lemma label_seq_filter_aux:
  "map ring_id rs = map ring_label ks \<Longrightarrow> sorted_wrt (<) ks \<Longrightarrow>
   \<exists>ks'. map ring_id (filter P rs) = map ring_label ks' \<and> sorted_wrt (<) ks'
         \<and> set ks' \<subseteq> set ks"
proof (induction rs arbitrary: ks)
  case Nil
  then show ?case by simp
next
  case (Cons r rs)
  then obtain k ks0 where ks: "ks = k # ks0" "ring_id r = ring_label k"
    "map ring_id rs = map ring_label ks0" by (cases ks) auto
  with Cons.prems have s: "sorted_wrt (<) ks0" "\<forall>j \<in> set ks0. k < j" by auto
  from Cons.IH [OF ks(3) s(1)] obtain ks' where
    ks': "map ring_id (filter P rs) = map ring_label ks'" "sorted_wrt (<) ks'" "set ks' \<subseteq> set ks0"
    by blast
  show ?case
  proof (cases "P r")
    case True
    have "map ring_id (filter P (r # rs)) = map ring_label (k # ks')"
      using True ks ks' by simp
    moreover have "sorted_wrt (<) (k # ks')" using ks' s by auto
    moreover have "set (k # ks') \<subseteq> set ks" using ks' ks by auto
    ultimately show ?thesis by blast
  next
    case False
    then show ?thesis using ks ks' by auto
  qed
qed

lemma label_seq_filter: "label_seq rs \<Longrightarrow> label_seq (filter P rs)"
proof -
  assume "label_seq rs"
  then obtain ks where ks: "map ring_id rs = map ring_label ks" "sorted_wrt (<) ks"
    "\<forall>k \<in> set ks. 1 \<le> k" unfolding label_seq_def by blast
  from label_seq_filter_aux [OF ks(1,2), of P] obtain ks' where
    "map ring_id (filter P rs) = map ring_label ks'" "sorted_wrt (<) ks'" "set ks' \<subseteq> set ks"
    by blast
  with ks(3) show ?thesis unfolding label_seq_def by blast
qed

lemma label_seq_map:
  "label_seq rs \<Longrightarrow> (\<And>r. ring_id (f r) = ring_id r) \<Longrightarrow> label_seq (map f rs)"
  by (simp add: label_seq_def comp_def)

lemma drop_rings_labels: "label_seq (st_rings st) \<Longrightarrow> label_seq (st_rings (drop_rings rids st))"
  by (simp add: drop_rings_def label_seq_filter)

lemma drop_orphans_rings: "st_rings (drop_orphans st) = st_rings st"
  by (simp add: drop_orphans_def Let_def)

lemma whitelist_sweep_labels:
  "label_seq (st_rings st) \<Longrightarrow> label_seq (st_rings (whitelist_sweep wl st))"
  by (auto simp: whitelist_sweep_def Let_def split: option.splits
      intro!: label_seq_map label_seq_filter)

lemma post_filter_labels:
  assumes "label_seq (st_rings st)"
  shows "label_seq (st_rings (post_filter wl st))"
proof -
  have "label_seq (st_rings (whitelist_sweep wl (drop_orphans (drop_rings r4 (drop_rings r3
          (drop_rings r2 (drop_rings r1 st)))))))" for r1 r2 r3 r4
    using assms
    by (intro whitelist_sweep_labels) (simp add: drop_orphans_rings drop_rings_labels)
  then show ?thesis
    by (simp add: post_filter_def Let_def)
qed

lemma length_dec: "k < 1000 \<Longrightarrow> length (dec k) \<le> 3"
proof -
  assume k: "k < 1000"
  have 1: "length (dec j) = 1" if "j < 10" for j
    using that by (subst dec.simps) simp
  have 2: "length (dec j) \<le> 2" if "j < 100" for j
    using that 1 [of "j div 10"] by (subst dec.simps) (auto simp: 1)
  show ?thesis
    using k 2 [of "k div 10"] by (subst dec.simps) (auto simp: 1)
qed

lemma length_ring_label: "k < 1000 \<Longrightarrow> length (ring_label k) = 8"
  using length_dec [of k] by (simp add: ring_label_def zfill_def)

text \<open>
  C2, amended. The labels of the rings of the final result are \<open>RING_\<close> followed by
  the decimal index padded with zeros to at least three digits (exactly three below
  1000), for strictly increasing indices from 1 on; they are pairwise distinct. They
  are the labels that survive the post-filter, so they need not start at
  \<open>RING_001\<close> nor be dense.
\<close>

theorem ring_labels_increasing:
  assumes "run hsh df = Some res"
  shows "\<exists>ks. map ring_id (fraud_rings res) = map (\<lambda>k. ''RING_'' @ zfill 3 (dec k)) ks
              \<and> sorted_wrt (<) ks \<and> (\<forall>k \<in> set ks. 1 \<le> k)
              \<and> (\<forall>k \<in> set ks. k < 1000 \<longrightarrow> length (zfill 3 (dec k)) = 3)
              \<and> distinct (map ring_id (fraud_rings res))"
proof -
  from assms obtain wl sm cd st base where
    cd: "detect_cycles hsh wl (build_graph (clean df)) = Some cd"
    and st: "st = post_filter wl (assemble hsh wl (build_graph (clean df)) (clean df) cd sm
            (detect_shell_chains hsh wl (build_graph (clean df)) (clean df) (cycle_members cd))
            (detect_mastermind hsh (build_graph (clean df)) (rings cd)) base)"
    and res: "fraud_rings res = st_rings st"
    by (rule run_Some)
  from assemble_labels [OF detect_cycles_keys [OF cd]] obtain n where
    "map ring_id (st_rings (assemble hsh wl (build_graph (clean df)) (clean df) cd sm
            (detect_shell_chains hsh wl (build_graph (clean df)) (clean df) (cycle_members cd))
            (detect_mastermind hsh (build_graph (clean df)) (rings cd)) base)) =
     map ring_label [1 ..< n]" by blast
  then have "label_seq (st_rings st)"
    unfolding st by (intro post_filter_labels) (rule label_seq_upt)
  then obtain ks where ks: "map ring_id (fraud_rings res) = map ring_label ks"
    "sorted_wrt (<) ks" "\<forall>k \<in> set ks. 1 \<le> k"
    unfolding label_seq_def res by blast
  have "map ring_label ks = map (\<lambda>k. ''RING_'' @ zfill 3 (dec k)) ks"
    by (simp add: ring_label_def)
  moreover have "\<forall>k \<in> set ks. k < 1000 \<longrightarrow> length (zfill 3 (dec k)) = 3"
    using length_ring_label by (simp add: ring_label_def)
  moreover have "distinct (map ring_id (fraud_rings res))"
    unfolding ks(1) using ks(2) by (rule distinct_ring_labels)
  ultimately show ?thesis using ks by metis
qed

section \<open>The two-ring scenario: labels after the post-filter\<close>

lemma two_rings_clean: "clean two_rings_df = two_rings_txns"
  by code_simp

lemma two_rings_build: "build_graph two_rings_txns = two_rings_graph"
  by code_simp

lemma two_rings_smurf: "detect_smurfing two_rings_graph two_rings_txns = ([], [])"
  by code_simp

lemma two_rings_cycles: "detect_cycles hash_flat [] two_rings_graph = Some two_rings_cd"
  by code_simp

lemma two_rings_shells:
  "detect_shell_chains hash_flat [] two_rings_graph two_rings_txns (cycle_members two_rings_cd) = []"
  by code_simp

lemma two_rings_mm: "detect_mastermind hash_flat two_rings_graph (rings two_rings_cd) = []"
  by code_simp

lemma two_rings_all_ids: "all_ids_of two_rings_cd [] [] = two_rings_ids"
  by code_simp

lemma two_rings_make_pre: "make_pre two_rings_graph two_rings_txns two_rings_ids = two_rings_pre"
  by code_simp

lemma two_rings_scored:
  "List.map_filter (suspect_of two_rings_graph two_rings_txns two_rings_cd [] [] two_rings_pre [])
     (set_iter hash_flat two_rings_ids) = two_rings_suspects"
  by code_simp

lemma two_rings_assemble:
  "assemble hash_flat [] two_rings_graph two_rings_txns two_rings_cd [] [] [] two_rings_suspects
     = two_rings_state"
  by code_simp

lemma two_rings_post: "post_filter [] two_rings_state = two_rings_final"
  by code_simp

lemma two_rings_run: "run hash_flat two_rings_df = Some two_rings_result"
proof -
  have "number_of_nodes two_rings_graph = 6" by code_simp
  moreover have "length (st_suspects two_rings_final) = 3" by code_simp
  moreover have "length (st_rings two_rings_final) = 1" by code_simp
  moreover have "length [s \<leftarrow> st_suspects two_rings_final. is_mastermind s] = 0" by code_simp
  moreover have "st_fp two_rings_final = 3" by code_simp
  ultimately show ?thesis
    using run_stages [OF two_rings_clean two_rings_build two_rings_smurf two_rings_cycles
        two_rings_shells two_rings_mm two_rings_all_ids two_rings_make_pre two_rings_scored
        two_rings_assemble two_rings_post]
    by (simp add: two_rings_result_def)
qed

lemma two_rings_labels: "map ring_id (fraud_rings two_rings_result) = [''RING_002'']"
  by code_simp

text \<open>
  C2, as stated, fails: the labels are assigned before the post-filter and never
  renumbered. Of the two rings of this table the first is dropped for its total
  amount, and the only label of the result is \<open>RING_002\<close>.
\<close>

theorem ring_labels_not_dense:
  "run hash_flat two_rings_df = Some two_rings_result
   \<and> map ring_id (fraud_rings two_rings_result) = [''RING_002'']
   \<and> map ring_id (fraud_rings two_rings_result)
        \<noteq> map ring_label [1 ..< Suc (length (fraud_rings two_rings_result))]"
proof -
  have "map ring_label [1 ..< Suc (length (fraud_rings two_rings_result))] = [''RING_001'']"
    by code_simp
  then show ?thesis using two_rings_run two_rings_labels by simp
qed

theorem ring_labels_increasing_witness:
  "run hash_flat two_rings_df = Some two_rings_result
   \<and> map ring_id (fraud_rings two_rings_result) = [''RING_'' @ zfill 3 (dec 2)]
   \<and> distinct (map ring_id (fraud_rings two_rings_result))"
proof -
  have "[''RING_'' @ zfill 3 (dec 2)] = [''RING_002'']" by code_simp
  then show ?thesis
    using ring_labels_increasing [OF two_rings_run] two_rings_run two_rings_labels by simp
qed


section \<open>Mastermind detection\<close>

lemma set_set_iter [simp]: "set (set_iter hsh s) = set s"
  by (simp add: set_iter_def)













section \<open>The shared-account scenario: a mastermind is found\<close>



lemma bowtie_composite: "ring_composite hash_flat bowtie_graph bowtie_members ''CYC3_H'' = 1"
  by code_simp



section \<open>The two velocity statistics\<close>

















end
